theory Spec2Isabelle
  imports Main "HOL-Library.Sublist"
begin

section \<open>Python values, faults and list indexing\<close>

text \<open>
  The development embeds \<^verbatim>\<open>Engine.generate\<close> of
  \<^verbatim>\<open>python/mlc_chat/serve/engine.py\<close> and the closure
  \<^verbatim>\<open>request_stream_callback\<close> it installs on the engine.
  Every \<^verbatim>\<open>raise\<close> or failed \<^verbatim>\<open>assert\<close> is a value of
  type \<open>error\<close>; a call that never returns is the outcome \<open>Diverges\<close>.
\<close>

datatype error = AssertionError | IndexError | ValueError | TVMError

datatype 'a outcome = Returned 'a | Raised error | Diverges

text \<open>
  The dynamically typed argument \<^verbatim>\<open>prompts\<close>: a string, an int (a bool is an
  int in Python), a list, or any other object (\<open>VNone\<close>).
\<close>

datatype pyval = VStr string | VInt int | VBool bool | VList "pyval list" | VNone

fun is_int :: "pyval \<Rightarrow> bool" where
  "is_int (VInt i) = True"
| "is_int (VBool b) = True"
| "is_int v = False"

text \<open>
  The position that \<^verbatim>\<open>xs[i]\<close> addresses in a Python list of length \<open>n\<close>: a
  negative index counts from the end, and an index outside \<open>-n .. n-1\<close> raises
  IndexError.
\<close>

definition py_index :: "nat \<Rightarrow> int \<Rightarrow> error + nat" where
  "py_index n i =
     (let j = (if i < 0 then int n + i else i)
      in if 0 \<le> j \<and> j < int n then Inr (nat j) else Inl IndexError)"

subsection \<open>\<^verbatim>\<open>int(request_id)\<close> and \<^verbatim>\<open>str(req_id)\<close>\<close>

text \<open>
  A character is a code point below 256. \<^verbatim>\<open>int(s)\<close> in CPython: surrounding
  whitespace is skipped, one sign is allowed, then decimal digits, single underscores
  only between digits; a literal of more than 4300 digits is refused (the default of
  \<^verbatim>\<open>sys.set_int_max_str_digits\<close>). Anything else raises ValueError (\<open>None\<close> here).
  Below 256 the whitespace that \<^verbatim>\<open>int\<close> skips is the space, the characters 9 to 13,
  and the code points 133 and 160; the characters 28 to 31, which \<^verbatim>\<open>str.strip\<close>
  removes, are not among them. The only decimal digits below 256 are \<open>0\<close> to \<open>9\<close>.
\<close>

definition is_space :: "char \<Rightarrow> bool" where
  "is_space c =
     ((of_char c :: nat) = 32 \<or> (9 \<le> (of_char c :: nat) \<and> (of_char c :: nat) \<le> 13) \<or>
      (of_char c :: nat) = 133 \<or> (of_char c :: nat) = 160)"

definition is_digit :: "char \<Rightarrow> bool" where
  "is_digit c = (48 \<le> (of_char c :: nat) \<and> (of_char c :: nat) \<le> 57)"

definition digit_val :: "char \<Rightarrow> nat" where
  "digit_val c = (of_char c :: nat) - 48"

fun parse_digits :: "nat \<Rightarrow> string \<Rightarrow> nat option" where
  "parse_digits acc [] = Some acc"
| "parse_digits acc [c] = (if is_digit c then Some (10 * acc + digit_val c) else None)"
| "parse_digits acc (c # d # ds) =
     (if is_digit c then parse_digits (10 * acc + digit_val c) (d # ds)
      else if c = CHR ''_'' \<and> is_digit d then parse_digits (10 * acc + digit_val d) ds
      else None)"

definition max_str_digits :: nat where
  "max_str_digits = 4300"

definition parse_nat :: "string \<Rightarrow> nat option" where
  "parse_nat s =
     (case s of
        [] \<Rightarrow> None
      | c # cs \<Rightarrow>
          if is_digit c \<and> length (filter is_digit s) \<le> max_str_digits
          then parse_digits (digit_val c) cs else None)"

definition strip :: "string \<Rightarrow> string" where
  "strip s = rev (dropWhile is_space (rev (dropWhile is_space s)))"

definition py_int :: "string \<Rightarrow> int option" where
  "py_int s =
     (case strip s of
        [] \<Rightarrow> None
      | c # cs \<Rightarrow>
          if c = CHR ''-'' then map_option (\<lambda>n. - int n) (parse_nat cs)
          else if c = CHR ''+'' then map_option int (parse_nat cs)
          else map_option int (parse_nat (c # cs)))"

text \<open>
  \<^verbatim>\<open>str(req_id)\<close> of line 312, for an index of \<^verbatim>\<open>enumerate\<close>. The limit of 4300
  digits holds for \<^verbatim>\<open>str\<close> too; line 312 stays below it, since a list has fewer
  than \<open>2^63\<close> items.
\<close>

definition digit_char :: "nat \<Rightarrow> char" where
  "digit_char d = ''0123456789'' ! d"

fun py_str :: "nat \<Rightarrow> string" where
  "py_str n = (if n < 10 then [digit_char n] else py_str (n div 10) @ [digit_char (n mod 10)])"

section \<open>The collaborators of \<^verbatim>\<open>generate\<close>\<close>

subsection \<open>TextStreamer\<close>

text \<open>
  Modelled from the spec: \<^verbatim>\<open>TextStreamer\<close> and \<^verbatim>\<open>Tokenizer\<close>
  (\<^verbatim>\<open>mlc_chat/streamer.py\<close>, \<^verbatim>\<open>mlc_chat/tokenizer.py\<close>) are not among the
  sources. Section 4.1 of the specification: \<^verbatim>\<open>put(token_ids)\<close> appends the ids
  to the history and returns only the portion of decoded text that can never change
  under future appends; \<^verbatim>\<open>finish()\<close> flushes all withheld text and closes the
  stream; \<^verbatim>\<open>put\<close> after \<^verbatim>\<open>finish\<close> and a second \<^verbatim>\<open>finish\<close> are faults.
  The state is the one of section 3: the token history, and a cursor marking how much
  decoded text has been emitted.

  The tokenizer is a parameter: \<open>decode\<close> is its decoding function, and \<open>stable\<close>
  gives, for a token history, the decoded text that the streamer releases (what lies
  before the withheld window).
\<close>

record tokenizer =
  decode :: "int list \<Rightarrow> string"
  stable :: "int list \<Rightarrow> string"

record text_streamer =
  ts_tokens :: "int list"
  ts_cursor :: nat
  ts_finished :: bool

definition new_text_streamer :: text_streamer where
  "new_text_streamer = \<lparr>ts_tokens = [], ts_cursor = 0, ts_finished = False\<rparr>"

definition ts_put :: "tokenizer \<Rightarrow> text_streamer \<Rightarrow> int list \<Rightarrow> error + (string \<times> text_streamer)" where
  "ts_put tk ts delta_tokens =
     (if ts_finished ts then Inl AssertionError
      else
        let history = ts_tokens ts @ delta_tokens;
            txt = drop (ts_cursor ts) (stable tk history)
        in Inr (txt, ts\<lparr>ts_tokens := history, ts_cursor := ts_cursor ts + length txt\<rparr>))"

definition ts_finish :: "tokenizer \<Rightarrow> text_streamer \<Rightarrow> error + (string \<times> text_streamer)" where
  "ts_finish tk ts =
     (if ts_finished ts then Inl AssertionError
      else
        let txt = drop (ts_cursor ts) (decode tk (ts_tokens ts))
        in Inr (txt, ts\<lparr>ts_cursor := ts_cursor ts + length txt, ts_finished := True\<rparr>))"

text \<open>
  Modelled from the spec: the guarantee that section 4.1 asks of the decoding rule.
  Text released for a history stays a prefix of what is released, and of what is
  decoded, for every longer history.
\<close>

definition stable_decoding :: "tokenizer \<Rightarrow> bool" where
  "stable_decoding tk =
     (\<forall>h ext. prefix (stable tk h) (stable tk (h @ ext)) \<and> prefix (stable tk h) (decode tk (h @ ext)))"

subsection \<open>StopStringHandler\<close>

text \<open>
  Modelled from the spec: \<^verbatim>\<open>StopStringHandler\<close> (\<^verbatim>\<open>mlc_chat/streamer.py\<close>) is
  not among the sources. Section 4.2 of the specification: \<^verbatim>\<open>put(text)\<close> appends
  the text to an internal buffer; if a stop string is found as a completed substring
  it sets the triggered flag, returns only the text before the first such occurrence
  and discards everything after it (later \<^verbatim>\<open>put\<close> and \<^verbatim>\<open>finish\<close> return the
  empty string); otherwise it withholds the longest suffix of the buffer that is a
  proper prefix of some stop string and returns the rest. \<^verbatim>\<open>finish()\<close> flushes the
  withheld buffer when not triggered; a second \<^verbatim>\<open>finish\<close> is a fault (section 7).
\<close>

definition matches_at :: "string list \<Rightarrow> string \<Rightarrow> nat \<Rightarrow> bool" where
  "matches_at stops buf k = list_ex (\<lambda>s. prefix s (drop k buf)) stops"

definition first_stop :: "string list \<Rightarrow> string \<Rightarrow> nat option" where
  "first_stop stops buf = find (matches_at stops buf) [0..<Suc (length buf)]"

definition partial_match :: "string list \<Rightarrow> string \<Rightarrow> nat \<Rightarrow> bool" where
  "partial_match stops buf n = list_ex (\<lambda>s. strict_prefix (drop (length buf - n) buf) s) stops"

definition withheld_len :: "string list \<Rightarrow> string \<Rightarrow> nat" where
  "withheld_len stops buf =
     (case find (partial_match stops buf) (rev [0..<Suc (length buf)]) of
        Some n \<Rightarrow> n
      | None \<Rightarrow> 0)"

record stop_string_handler =
  sh_stop_strs :: "string list"
  sh_held :: string
  stop_triggered :: bool
  sh_closed :: bool

definition new_stop_handler :: "string list \<Rightarrow> stop_string_handler" where
  "new_stop_handler stops =
     \<lparr>sh_stop_strs = stops, sh_held = [], stop_triggered = False, sh_closed = False\<rparr>"

definition sh_put :: "stop_string_handler \<Rightarrow> string \<Rightarrow> string \<times> stop_string_handler" where
  "sh_put h txt =
     (if stop_triggered h then ([], h)
      else
        let buf = sh_held h @ txt
        in case first_stop (sh_stop_strs h) buf of
             Some k \<Rightarrow> (take k buf, h\<lparr>sh_held := [], stop_triggered := True\<rparr>)
           | None \<Rightarrow>
               let w = withheld_len (sh_stop_strs h) buf
               in (take (length buf - w) buf, h\<lparr>sh_held := drop (length buf - w) buf\<rparr>))"

definition sh_finish :: "stop_string_handler \<Rightarrow> error + (string \<times> stop_string_handler)" where
  "sh_finish h =
     (if sh_closed h then Inl AssertionError
      else if stop_triggered h then Inr ([], h\<lparr>sh_closed := True\<rparr>)
      else Inr (sh_held h, h\<lparr>sh_held := [], sh_closed := True\<rparr>))"

section \<open>The batch-scoped callback\<close>

text \<open>
  Modelled from the spec: \<^verbatim>\<open>RequestStreamOutput\<close> (\<^verbatim>\<open>mlc_chat/serve/request.py\<close>)
  is not among the sources. It is the stream event of section 3: what
  \<^verbatim>\<open>unpack()\<close> returns at line 281 is the request id (a string), the delta token
  ids and the optional finish reason.
\<close>

record request_stream_output =
  request_id :: string
  delta_token_ids :: "int list"
  finish_reason :: "string option"

text \<open>
  The variables the closure captures (lines 263-270). \<open>finish_reasons\<close> is a
  history variable: entry \<open>rid\<close> holds the value the local
  \<^verbatim>\<open>finish_reason\<close> had at line 297 for the last event routed to \<open>rid\<close>.
  The code tests that value and drops it; nothing in the model reads it.
\<close>

record batch =
  num_finished_requests :: nat
  outputs :: "string list"
  text_streamers :: "text_streamer list"
  stop_handlers :: "stop_string_handler list"
  finish_reasons :: "string option list"

text \<open>Lines 286-294: the delta text and the finish reason of one event.\<close>

definition resolve_delta ::
  "tokenizer \<Rightarrow> text_streamer \<Rightarrow> stop_string_handler \<Rightarrow> int list \<Rightarrow> string option \<Rightarrow>
     error + (string \<times> string option \<times> text_streamer \<times> stop_string_handler)" where
  "resolve_delta tk text_streamer stop_handler token_ids fr =
     (case ts_put tk text_streamer token_ids of
        Inl e \<Rightarrow> Inl e
      | Inr (txt, ts1) \<Rightarrow>
          (case sh_put stop_handler txt of
             (delta_text, sh1) \<Rightarrow>
               if stop_triggered sh1 then Inr (delta_text, Some ''stop'', ts1, sh1)
               else if fr \<noteq> None then
                 (case ts_finish tk ts1 of
                    Inl e \<Rightarrow> Inl e
                  | Inr (txt2, ts2) \<Rightarrow>
                      (case sh_put sh1 txt2 of
                         (delta2, sh2) \<Rightarrow>
                           if stop_triggered sh2
                           then Inr (delta_text @ delta2, Some ''stop'', ts2, sh2)
                           else
                             (case sh_finish sh2 of
                                Inl e \<Rightarrow> Inl e
                              | Inr (delta3, sh3) \<Rightarrow>
                                  Inr (delta_text @ delta2 @ delta3, fr, ts2, sh3))))
               else Inr (delta_text, fr, ts1, sh1)))"

text \<open>Lines 281-298: the body of the loop over \<^verbatim>\<open>delta_outputs\<close>.\<close>

definition handle_delta_output :: "tokenizer \<Rightarrow> batch \<Rightarrow> request_stream_output \<Rightarrow> error + batch" where
  "handle_delta_output tk st delta_output =
     (case py_int (request_id delta_output) of
        None \<Rightarrow> Inl ValueError
      | Some rid \<Rightarrow>
          (case py_index (length (text_streamers st)) rid of
             Inl e \<Rightarrow> Inl e
           | Inr ti \<Rightarrow>
               (case py_index (length (stop_handlers st)) rid of
                  Inl e \<Rightarrow> Inl e
                | Inr si \<Rightarrow>
                    (case resolve_delta tk (text_streamers st ! ti) (stop_handlers st ! si)
                            (delta_token_ids delta_output) (finish_reason delta_output) of
                       Inl e \<Rightarrow> Inl e
                     | Inr (delta_text, fr, ts', sh') \<Rightarrow>
                         (case py_index (length (outputs st)) rid of
                            Inl e \<Rightarrow> Inl e
                          | Inr oi \<Rightarrow>
                              Inr (st\<lparr>
                                num_finished_requests :=
                                  (if fr \<noteq> None then num_finished_requests st + 1
                                   else num_finished_requests st),
                                outputs := (outputs st)[oi := outputs st ! oi @ delta_text],
                                text_streamers := (text_streamers st)[ti := ts'],
                                stop_handlers := (stop_handlers st)[si := sh'],
                                finish_reasons := (finish_reasons st)[oi := fr]\<rparr>))))))"

fun request_stream_callback :: "tokenizer \<Rightarrow> batch \<Rightarrow> request_stream_output list \<Rightarrow> error + batch" where
  "request_stream_callback tk st [] = Inr st"
| "request_stream_callback tk st (delta_output # rest) =
     (case handle_delta_output tk st delta_output of
        Inl e \<Rightarrow> Inl e
      | Inr st' \<Rightarrow> request_stream_callback tk st' rest)"

section \<open>The engine\<close>

text \<open>
  Modelled from the spec: the engine is the native module behind \<^verbatim>\<open>self._ffi\<close>,
  not among the sources; section 6 gives its contract. Its state is the callback slot
  and the log of calls made to it; its behaviour is a parameter: whether each
  successive \<^verbatim>\<open>add_request\<close> raises, and what each successive \<^verbatim>\<open>step\<close> does
  (raise, or invoke the installed callback on a sequence of deliveries, possibly
  none). Once \<open>step_script\<close> is used up every further step delivers nothing.

  \<^verbatim>\<open>GenerationConfig\<close>, \<^verbatim>\<open>Request\<close> and the input data classes are not among
  the sources either: a generation config is reduced to the one field that
  \<^verbatim>\<open>generate\<close> reads, its stop strings, and a request holds what lines 311-315
  pass to its constructor.
\<close>

datatype callback = NoCallback | UserCallback nat | BatchCallback

record generation_config =
  stop_strs :: "string list"

datatype input_data = TextData string | TokenData pyval

record request =
  req_request_id :: string
  req_inputs :: input_data
  req_generation_config :: generation_config

datatype ffi_call =
    GetRequestStreamCallback
  | SetRequestStreamCallback callback
  | AddRequest request
  | Step

datatype step_outcome = StepRaises | StepDelivers "request_stream_output list list"

record engine =
  callback_slot :: callback
  ffi_log :: "ffi_call list"
  add_request_raises :: "bool list"
  step_script :: "step_outcome list"

definition get_request_stream_callback :: "engine \<Rightarrow> callback \<times> engine" where
  "get_request_stream_callback eng =
     (callback_slot eng, eng\<lparr>ffi_log := ffi_log eng @ [GetRequestStreamCallback]\<rparr>)"

definition set_request_stream_callback :: "engine \<Rightarrow> callback \<Rightarrow> engine" where
  "set_request_stream_callback eng cb =
     eng\<lparr>callback_slot := cb, ffi_log := ffi_log eng @ [SetRequestStreamCallback cb]\<rparr>"

definition add_request :: "engine \<Rightarrow> request \<Rightarrow> error option \<times> engine" where
  "add_request eng r =
     (let eng' = eng\<lparr>ffi_log := ffi_log eng @ [AddRequest r],
                     add_request_raises := tl (add_request_raises eng)\<rparr>
      in case add_request_raises eng of
           True # _ \<Rightarrow> (Some TVMError, eng')
         | _ \<Rightarrow> (None, eng'))"

text \<open>
  \<^verbatim>\<open>step\<close>, with the batch callback installed: the deliveries of this step run
  \<^verbatim>\<open>request_stream_callback\<close> one after the other, and a fault of the callback
  leaves \<^verbatim>\<open>step\<close> as a fault.
\<close>

fun deliver :: "tokenizer \<Rightarrow> batch \<Rightarrow> request_stream_output list list \<Rightarrow> error + batch" where
  "deliver tk st [] = Inr st"
| "deliver tk st (delta_outputs # rest) =
     (case request_stream_callback tk st delta_outputs of
        Inl e \<Rightarrow> Inl e
      | Inr st' \<Rightarrow> deliver tk st' rest)"

definition log_step :: "engine \<Rightarrow> engine" where
  "log_step eng = eng\<lparr>ffi_log := ffi_log eng @ [Step], step_script := tl (step_script eng)\<rparr>"

section \<open>\<^verbatim>\<open>Engine.generate\<close>\<close>

text \<open>
  Lines 241-253. \<open>Inr None\<close> is the early \<^verbatim>\<open>return []\<close> of line 250.
\<close>

definition normalize_prompts :: "pyval \<Rightarrow> error + pyval list option" where
  "normalize_prompts prompts =
     (case prompts of
        VStr s \<Rightarrow> Inr (Some [prompts])
      | VList ps \<Rightarrow>
          (case ps of
             [] \<Rightarrow> Inr None
           | p # _ \<Rightarrow> if is_int p then Inr (Some [prompts]) else Inr (Some ps))
      | _ \<Rightarrow> Inl AssertionError)"

datatype config_arg = SingleConfig generation_config | ConfigList "generation_config list"

text \<open>Lines 256-257.\<close>

definition broadcast_config :: "config_arg \<Rightarrow> nat \<Rightarrow> generation_config list" where
  "broadcast_config generation_cfg num_requests =
     (case generation_cfg of
        SingleConfig c \<Rightarrow> replicate num_requests c
      | ConfigList cs \<Rightarrow> cs)"

text \<open>Lines 263-270.\<close>

definition init_batch :: "generation_config list \<Rightarrow> nat \<Rightarrow> batch" where
  "init_batch cfgs num_requests =
     \<lparr>num_finished_requests = 0,
      outputs = map (\<lambda>i. []) [0..<num_requests],
      text_streamers = map (\<lambda>i. new_text_streamer) [0..<num_requests],
      stop_handlers = map (\<lambda>i. new_stop_handler (stop_strs (cfgs ! i))) [0..<num_requests],
      finish_reasons = map (\<lambda>i. None) [0..<num_requests]\<rparr>"

text \<open>Lines 304-316.\<close>

definition make_request :: "nat \<Rightarrow> pyval \<Rightarrow> generation_config \<Rightarrow> request" where
  "make_request req_id prompt generation_cfg =
     \<lparr>req_request_id = py_str req_id,
      req_inputs = (case prompt of VStr s \<Rightarrow> TextData s | _ \<Rightarrow> TokenData prompt),
      req_generation_config = generation_cfg\<rparr>"

fun add_requests :: "engine \<Rightarrow> nat \<Rightarrow> (pyval \<times> generation_config) list \<Rightarrow> error option \<times> engine" where
  "add_requests eng req_id [] = (None, eng)"
| "add_requests eng req_id ((prompt, generation_cfg) # rest) =
     (case add_request eng (make_request req_id prompt generation_cfg) of
        (Some e, eng') \<Rightarrow> (Some e, eng')
      | (None, eng') \<Rightarrow> add_requests eng' (Suc req_id) rest)"

text \<open>
  Lines 318-319. When the script is used up and the count still differs from
  \<^verbatim>\<open>num_requests\<close>, every further step delivers nothing, the count stays as it
  is and the loop never exits.
\<close>

function step_loop :: "tokenizer \<Rightarrow> nat \<Rightarrow> batch \<Rightarrow> engine \<Rightarrow> batch outcome \<times> engine" where
  "step_loop tk num_requests st eng =
     (if num_finished_requests st = num_requests then (Returned st, eng)
      else
        (case step_script eng of
           [] \<Rightarrow> (Diverges, eng)
         | StepRaises # _ \<Rightarrow> (Raised TVMError, log_step eng)
         | StepDelivers ds # _ \<Rightarrow>
             (case deliver tk st ds of
                Inl e \<Rightarrow> (Raised e, log_step eng)
              | Inr st' \<Rightarrow> step_loop tk num_requests st' (log_step eng))))"
  by pat_completeness auto
termination
  by (relation "measure (\<lambda>(tk, n, st, eng). length (step_script eng))") (auto simp: log_step_def)

definition generate :: "tokenizer \<Rightarrow> engine \<Rightarrow> pyval \<Rightarrow> config_arg \<Rightarrow> string list outcome \<times> engine" where
  "generate tk eng prompts generation_cfg =
     (case normalize_prompts prompts of
        Inl e \<Rightarrow> (Raised e, eng)
      | Inr None \<Rightarrow> (Returned [], eng)
      | Inr (Some ps) \<Rightarrow>
          (let num_requests = length ps;
               cfgs = broadcast_config generation_cfg num_requests
           in if length cfgs \<noteq> num_requests then (Raised AssertionError, eng)
              else
                (let st = init_batch cfgs num_requests
                 in case get_request_stream_callback eng of
                      (original_callback, eng1) \<Rightarrow>
                        (case add_requests (set_request_stream_callback eng1 BatchCallback) 0 (zip ps cfgs) of
                           (Some e, eng3) \<Rightarrow> (Raised e, eng3)
                         | (None, eng3) \<Rightarrow>
                             (case step_loop tk num_requests st eng3 of
                                (Returned st', eng4) \<Rightarrow>
                                  (Returned (outputs st'),
                                   set_request_stream_callback eng4 original_callback)
                              | (Raised e, eng4) \<Rightarrow> (Raised e, eng4)
                              | (Diverges, eng4) \<Rightarrow> (Diverges, eng4))))))"

section \<open>Example tokenizer, engine and events\<close>

text \<open>
  A small vocabulary used to run the definitions on concrete inputs: token \<open>0\<close>
  decodes to \<open>Hello\<close>, \<open>1\<close> to \<open>!\<close>, \<open>2\<close> to \<open>World\<close>, \<open>3\<close> to \<open>.\<close>, every other
  id to \<open>?\<close>. The example streamer withholds the last token of the history.
\<close>

definition demo_vocab :: "int \<Rightarrow> string" where
  "demo_vocab t =
     (if t = 0 then ''Hello'' else if t = 1 then ''!'' else if t = 2 then ''World''
      else if t = 3 then ''.'' else ''?'')"

definition demo_tokenizer :: tokenizer where
  "demo_tokenizer =
     \<lparr>decode = (\<lambda>ts. concat (map demo_vocab ts)),
      stable = (\<lambda>ts. concat (map demo_vocab (butlast ts)))\<rparr>"

definition demo_engine :: "step_outcome list \<Rightarrow> engine" where
  "demo_engine script =
     \<lparr>callback_slot = UserCallback 0, ffi_log = [], add_request_raises = [], step_script = script\<rparr>"

definition ev :: "string \<Rightarrow> int list \<Rightarrow> string option \<Rightarrow> request_stream_output" where
  "ev rid toks fr = \<lparr>request_id = rid, delta_token_ids = toks, finish_reason = fr\<rparr>"

text \<open>
  A run on one pre-tokenized prompt: the single step delivers both tokens of request
  \<open>0\<close> together with a finish reason. \<open>demo_token_final\<close> is the engine after the call.
\<close>

definition demo_token_engine :: engine where
  "demo_token_engine = demo_engine [StepDelivers [[ev ''0'' [0, 3] (Some ''length'')]]]"

definition demo_token_final :: engine where
  "demo_token_final =
     \<lparr>callback_slot = UserCallback 0,
      ffi_log =
        [GetRequestStreamCallback, SetRequestStreamCallback BatchCallback,
         AddRequest \<lparr>req_request_id = ''0'', req_inputs = TokenData (VList [VInt 7, VInt 8]),
                     req_generation_config = \<lparr>stop_strs = []\<rparr>\<rparr>,
         Step, SetRequestStreamCallback (UserCallback 0)],
      add_request_raises = [], step_script = []\<rparr>"

section \<open>Notions used in the statements\<close>

text \<open>The requests handed to \<^verbatim>\<open>add_request\<close>, in call order, read off the log.\<close>

definition add_request_calls :: "ffi_call list \<Rightarrow> request list" where
  "add_request_calls calls = concat (map (\<lambda>c. case c of AddRequest r \<Rightarrow> [r] | _ \<Rightarrow> []) calls)"

text \<open>
  \<^verbatim>\<open>num_requests\<close> of line 255: the number of prompts after lines 241-253, and
  \<open>0\<close> on the paths that leave before line 255.
\<close>

definition num_prompts :: "pyval \<Rightarrow> nat" where
  "num_prompts prompts = (case normalize_prompts prompts of Inr (Some ps) \<Rightarrow> length ps | _ \<Rightarrow> 0)"

text \<open>The four per-request lists of a batch of \<open>n\<close> requests all have length \<open>n\<close>.\<close>

definition has_size :: "nat \<Rightarrow> batch \<Rightarrow> bool" where
  "has_size n st =
     (length (outputs st) = n \<and> length (text_streamers st) = n \<and>
      length (stop_handlers st) = n \<and> length (finish_reasons st) = n)"

text \<open>A fresh batch of two requests without stop strings.\<close>

definition demo_batch2 :: batch where
  "demo_batch2 = init_batch [\<lparr>stop_strs = []\<rparr>, \<lparr>stop_strs = []\<rparr>] 2"

text \<open>
  The part of the batch that belongs to one request, and the callback's loop body
  seen from that request alone: \<open>replay\<close> runs lines 286-297 over the events of one
  request, in arrival order, on that request's output, streamer and handler.
\<close>

record request_state =
  rs_output :: string
  rs_streamer :: text_streamer
  rs_handler :: stop_string_handler
  rs_reason :: "string option"

definition request_view :: "batch \<Rightarrow> nat \<Rightarrow> request_state" where
  "request_view st i =
     \<lparr>rs_output = outputs st ! i, rs_streamer = text_streamers st ! i,
      rs_handler = stop_handlers st ! i, rs_reason = finish_reasons st ! i\<rparr>"

definition fresh_request :: "generation_config \<Rightarrow> request_state" where
  "fresh_request cfg =
     \<lparr>rs_output = [], rs_streamer = new_text_streamer,
      rs_handler = new_stop_handler (stop_strs cfg), rs_reason = None\<rparr>"

definition apply_event :: "tokenizer \<Rightarrow> request_state \<Rightarrow> request_stream_output \<Rightarrow> error + request_state" where
  "apply_event tk v d =
     (case resolve_delta tk (rs_streamer v) (rs_handler v) (delta_token_ids d) (finish_reason d) of
        Inl e \<Rightarrow> Inl e
      | Inr (delta_text, fr, ts', sh') \<Rightarrow>
          Inr \<lparr>rs_output = rs_output v @ delta_text, rs_streamer = ts',
               rs_handler = sh', rs_reason = fr\<rparr>)"

fun replay :: "tokenizer \<Rightarrow> request_state \<Rightarrow> request_stream_output list \<Rightarrow> error + request_state" where
  "replay tk v [] = Inr v"
| "replay tk v (d # ds) =
     (case apply_event tk v d of Inl e \<Rightarrow> Inl e | Inr v' \<Rightarrow> replay tk v' ds)"

text \<open>The list position that \<^verbatim>\<open>[rid]\<close> addresses in a batch of \<open>n\<close> requests.\<close>

definition slot_of :: "nat \<Rightarrow> request_stream_output \<Rightarrow> nat option" where
  "slot_of n d =
     (case py_int (request_id d) of
        None \<Rightarrow> None
      | Some rid \<Rightarrow> (case py_index n rid of Inl e \<Rightarrow> None | Inr j \<Rightarrow> Some j))"

definition events_for :: "nat \<Rightarrow> nat \<Rightarrow> request_stream_output list \<Rightarrow> request_stream_output list" where
  "events_for n i evs = filter (\<lambda>d. slot_of n d = Some i) evs"

text \<open>
  The events handed to the callback by the steps that the call consumed, in delivery
  order.
\<close>

definition step_events :: "step_outcome \<Rightarrow> request_stream_output list" where
  "step_events s = (case s of StepRaises \<Rightarrow> [] | StepDelivers ds \<Rightarrow> concat ds)"

definition delivered_events :: "engine \<Rightarrow> engine \<Rightarrow> request_stream_output list" where
  "delivered_events eng eng' =
     concat (map step_events
       (take (length (step_script eng) - length (step_script eng')) (step_script eng)))"


text \<open>
  A run on two prompts whose events interleave: request \<open>1\<close> is the first to
  receive text and the first to finish.
\<close>

definition demo_interleaved_engine :: engine where
  "demo_interleaved_engine =
     demo_engine
       [StepDelivers [[ev ''1'' [2] None, ev ''0'' [0] None]],
        StepDelivers [[ev ''1'' [3] (Some ''length'')], [ev ''0'' [3, 3] (Some ''stop'')]]]"

definition demo_interleaved_final :: engine where
  "demo_interleaved_final =
     \<lparr>callback_slot = UserCallback 0,
      ffi_log =
        [GetRequestStreamCallback, SetRequestStreamCallback BatchCallback,
         AddRequest \<lparr>req_request_id = ''0'', req_inputs = TextData ''a'',
                     req_generation_config = \<lparr>stop_strs = []\<rparr>\<rparr>,
         AddRequest \<lparr>req_request_id = ''1'', req_inputs = TextData ''b'',
                     req_generation_config = \<lparr>stop_strs = []\<rparr>\<rparr>,
         Step, Step, SetRequestStreamCallback (UserCallback 0)],
      add_request_raises = [], step_script = []\<rparr>"









text \<open>
  What every handled event establishes for its request: a finish reason is left only
  when the matcher has triggered or the streamer has been finished, and a triggered
  matcher leaves the reason \<open>stop\<close>.
\<close>

definition done_inv :: "request_state \<Rightarrow> bool" where
  "done_inv v =
     ((rs_reason v \<noteq> None \<longrightarrow> stop_triggered (rs_handler v) \<or> ts_finished (rs_streamer v)) \<and>
      (stop_triggered (rs_handler v) \<longrightarrow> rs_reason v = Some ''stop''))"

text \<open>
  The text a streamer has handed out so far, read off its state, and the bound on the
  cursor that makes this reading right.
\<close>

definition emitted :: "tokenizer \<Rightarrow> text_streamer \<Rightarrow> string" where
  "emitted tk ts =
     (if ts_finished ts then decode tk (ts_tokens ts)
      else take (ts_cursor ts) (stable tk (ts_tokens ts)))"

definition ts_inv :: "tokenizer \<Rightarrow> text_streamer \<Rightarrow> bool" where
  "ts_inv tk ts = (ts_finished ts \<or> ts_cursor ts \<le> length (stable tk (ts_tokens ts)))"

text \<open>
  No stop string starts before position \<open>m\<close> of the text \<open>P\<close>, however \<open>P\<close> is
  continued.
\<close>

definition no_start_before :: "string list \<Rightarrow> string \<Rightarrow> nat \<Rightarrow> bool" where
  "no_start_before S P m = (\<forall>p<m. \<forall>s\<in>set S. \<forall>ext. \<not> prefix s (drop p (P @ ext)))"

text \<open>
  What the callback maintains for one request, in terms of the text \<open>P\<close> the streamer
  has handed to the stop handler. Once triggered, the output is the text before the
  first stop string of the text seen when the handler triggered. Before that, output
  and withheld text together are \<open>P\<close>, and no stop string starts inside the output;
  after the final flush the output is all of \<open>P\<close>, which holds no stop string.
\<close>

definition stop_inv :: "tokenizer \<Rightarrow> request_state \<Rightarrow> bool" where
  "stop_inv tk v =
     (ts_inv tk (rs_streamer v) \<and>
      (stop_triggered (rs_handler v) \<longrightarrow>
         (\<exists>P' k. prefix P' (emitted tk (rs_streamer v)) \<and>
            first_stop (sh_stop_strs (rs_handler v)) P' = Some k \<and> rs_output v = take k P')) \<and>
      (\<not> stop_triggered (rs_handler v) \<and> \<not> ts_finished (rs_streamer v) \<longrightarrow>
         rs_output v @ sh_held (rs_handler v) = emitted tk (rs_streamer v) \<and>
         no_start_before (sh_stop_strs (rs_handler v)) (emitted tk (rs_streamer v))
           (length (rs_output v))) \<and>
      (\<not> stop_triggered (rs_handler v) \<and> ts_finished (rs_streamer v) \<longrightarrow>
         rs_output v = emitted tk (rs_streamer v) \<and>
         first_stop (sh_stop_strs (rs_handler v)) (emitted tk (rs_streamer v)) = None))"

text \<open>
  Among the occurrences of stop strings in \<open>T\<close>, one that starts at \<open>k\<close> ends no
  later than every other. This holds of the first occurrence when there is one stop
  string, or when all stop strings have the same length.
\<close>

definition ends_first :: "string list \<Rightarrow> string \<Rightarrow> nat \<Rightarrow> bool" where
  "ends_first S T k =
     list_ex (\<lambda>s. prefix s (drop k T) \<and>
        list_all (\<lambda>s'. list_all (\<lambda>k'. prefix s' (drop k' T) \<longrightarrow> k + length s \<le> k' + length s')
                    [0..<Suc (length T)]) S) S"

text \<open>All token ids delivered for request \<open>i\<close>, in arrival order.\<close>

definition request_tokens :: "nat \<Rightarrow> nat \<Rightarrow> request_stream_output list \<Rightarrow> int list" where
  "request_tokens n i evs = concat (map delta_token_ids (events_for n i evs))"

text \<open>
  The example of section 8 of the specification: two prompts with the stop string
  \<open>!\<close>; the engine produces the tokens of \<open>Hello!!!\<close> and of \<open>World.\<close>, each with a
  finish reason. \<open>demo_stop_batch\<close> is the batch after the delivery.
\<close>

definition demo_stop_engine :: engine where
  "demo_stop_engine =
     demo_engine
       [StepDelivers [[ev ''0'' [0, 1, 1, 1] (Some ''length''), ev ''1'' [2, 3] (Some ''length'')]]]"

definition demo_stop_final :: engine where
  "demo_stop_final =
     \<lparr>callback_slot = UserCallback 0,
      ffi_log =
        [GetRequestStreamCallback, SetRequestStreamCallback BatchCallback,
         AddRequest \<lparr>req_request_id = ''0'', req_inputs = TextData ''Hello'',
                     req_generation_config = \<lparr>stop_strs = [''!'']\<rparr>\<rparr>,
         AddRequest \<lparr>req_request_id = ''1'', req_inputs = TextData ''World'',
                     req_generation_config = \<lparr>stop_strs = [''!'']\<rparr>\<rparr>,
         Step, SetRequestStreamCallback (UserCallback 0)],
      add_request_raises = [], step_script = []\<rparr>"

definition demo_stop_batch :: batch where
  "demo_stop_batch =
     \<lparr>num_finished_requests = 2, outputs = [''Hello'', ''World.''],
      text_streamers =
        [\<lparr>ts_tokens = [0, 1, 1, 1], ts_cursor = 7, ts_finished = False\<rparr>,
         \<lparr>ts_tokens = [2, 3], ts_cursor = 6, ts_finished = True\<rparr>],
      stop_handlers =
        [\<lparr>sh_stop_strs = [''!''], sh_held = [], stop_triggered = True, sh_closed = False\<rparr>,
         \<lparr>sh_stop_strs = [''!''], sh_held = [], stop_triggered = False, sh_closed = True\<rparr>],
      finish_reasons = [Some ''stop'', Some ''length'']\<rparr>"

text \<open>The number that a string of digits denotes, read from the left.\<close>

definition digits_value :: "nat \<Rightarrow> string \<Rightarrow> nat" where
  "digits_value acc s = foldl (\<lambda>a c. 10 * a + digit_val c) acc s"

section \<open>Basic facts\<close>

lemmas eval_defs =
  generate_def normalize_prompts_def broadcast_config_def init_batch_def
  get_request_stream_callback_def set_request_stream_callback_def add_request_def
  make_request_def log_step_def demo_engine_def demo_tokenizer_def demo_vocab_def ev_def
  handle_delta_output_def resolve_delta_def ts_put_def ts_finish_def sh_put_def sh_finish_def
  new_text_streamer_def new_stop_handler_def first_stop_def withheld_len_def matches_at_def
  partial_match_def py_int_def strip_def is_space_def parse_nat_def max_str_digits_def is_digit_def
  digit_val_def
  py_index_def digit_char_def Let_def

lemma add_request_calls_append [simp]:
  "add_request_calls (xs @ ys) = add_request_calls xs @ add_request_calls ys"
  by (simp add: add_request_calls_def)

lemma add_request_calls_simps [simp]:
  "add_request_calls [] = []"
  "add_request_calls (AddRequest r # cs) = r # add_request_calls cs"
  "add_request_calls (Step # cs) = add_request_calls cs"
  "add_request_calls (GetRequestStreamCallback # cs) = add_request_calls cs"
  "add_request_calls (SetRequestStreamCallback cb # cs) = add_request_calls cs"
  by (simp_all add: add_request_calls_def)

lemma add_requests_effect:
  "add_requests eng k xs = (r, eng') \<Longrightarrow>
     callback_slot eng' = callback_slot eng \<and> step_script eng' = step_script eng \<and>
     (\<exists>new. ffi_log eng' = ffi_log eng @ new \<and> new \<noteq> [] = (xs \<noteq> []) \<and>
        (r = None \<longrightarrow> new = map (\<lambda>(i, (p, c)). AddRequest (make_request i p c)) (zip [k..<k + length xs] xs)))"
proof (induction xs arbitrary: eng k)
  case Nil
  then show ?case by simp
next
  case (Cons x xs)
  obtain p c where x: "x = (p, c)" by (cases x)
  obtain r1 eng1 where a: "add_request eng (make_request k p c) = (r1, eng1)"
    by (cases "add_request eng (make_request k p c)")
  have e1: "callback_slot eng1 = callback_slot eng" "step_script eng1 = step_script eng"
    "ffi_log eng1 = ffi_log eng @ [AddRequest (make_request k p c)]"
    using a by (auto simp: add_request_def Let_def split: list.splits bool.splits)
  show ?case
  proof (cases r1)
    case None
    with Cons.prems x a have rec: "add_requests eng1 (Suc k) xs = (r, eng')" by simp
    from Cons.IH[OF rec] e1 show ?thesis
      by (auto simp: x upt_conv_Cons)
  next
    case (Some e)
    with Cons.prems x a have "r = Some e" "eng' = eng1" by auto
    with e1 show ?thesis by (auto simp: x)
  qed
qed


lemma py_index_range: "py_index n i = Inr j \<Longrightarrow> j < n"
  by (auto simp: py_index_def Let_def split: if_splits)

lemma handle_delta_output_size:
  "handle_delta_output tk st d = Inr st' \<Longrightarrow> has_size n st \<Longrightarrow> has_size n st'"
  by (auto simp: handle_delta_output_def has_size_def split: option.splits sum.splits prod.splits)

lemma request_stream_callback_size:
  "request_stream_callback tk st ds = Inr st' \<Longrightarrow> has_size n st \<Longrightarrow> has_size n st'"
  by (induction ds arbitrary: st) (auto split: sum.splits dest: handle_delta_output_size)

lemma deliver_size:
  "deliver tk st dss = Inr st' \<Longrightarrow> has_size n st \<Longrightarrow> has_size n st'"
  by (induction dss arbitrary: st) (auto split: sum.splits dest: request_stream_callback_size)

lemma init_batch_size: "has_size n (init_batch cfgs n)"
  by (simp add: has_size_def init_batch_def)

lemma step_loop_effect:
  "step_loop tk n st eng = (r, eng') \<Longrightarrow>
     callback_slot eng' = callback_slot eng \<and>
     (\<exists>k. ffi_log eng' = ffi_log eng @ replicate k Step) \<and>
     (\<forall>st'. r = Returned st' \<longrightarrow> num_finished_requests st' = n \<and> (has_size m st \<longrightarrow> has_size m st'))"
proof (induction tk n st eng rule: step_loop.induct)
  case (1 tk n st eng)
  show ?case
  proof (cases "num_finished_requests st = n")
    case True
    with "1.prems" show ?thesis by auto
  next
    case False
    note nf = this
    have "ffi_log (log_step eng) = ffi_log eng @ replicate 1 Step"
      by (simp add: log_step_def)
    then have one: "\<exists>k. ffi_log (log_step eng) = ffi_log eng @ replicate k Step"
      by blast
    have slot: "callback_slot (log_step eng) = callback_slot eng"
      by (simp add: log_step_def)
    show ?thesis
    proof (cases "step_script eng")
      case Nil
      with nf "1.prems" show ?thesis by auto
    next
      case (Cons s rest)
      show ?thesis
      proof (cases s)
        case StepRaises
        with nf Cons "1.prems" have "r = Raised TVMError" "eng' = log_step eng" by auto
        with one slot show ?thesis by simp
      next
        case (StepDelivers ds)
        show ?thesis
        proof (cases "deliver tk st ds")
          case (Inl e)
          with nf Cons StepDelivers "1.prems" have "r = Raised e" "eng' = log_step eng" by auto
          with one slot show ?thesis by simp
        next
          case (Inr st1)
          with nf Cons StepDelivers "1.prems"
          have rec: "step_loop tk n st1 (log_step eng) = (r, eng')" by simp
          from "1.IH"[OF nf Cons StepDelivers Inr rec] obtain k where
            k: "ffi_log eng' = ffi_log (log_step eng) @ replicate k Step" by blast
          have "ffi_log eng' = ffi_log eng @ replicate (Suc k) Step"
            using k by (simp add: log_step_def)
          then have ex: "\<exists>k. ffi_log eng' = ffi_log eng @ replicate k Step" by blast
          from "1.IH"[OF nf Cons StepDelivers Inr rec] deliver_size[OF Inr] ex
          show ?thesis by (auto simp: log_step_def)
        qed
      qed
    qed
  qed
qed

lemma generate_cases [consumes 1]:
  assumes "generate tk eng prompts gc = (r, eng')"
  obtains
    (bad_prompts) e where "normalize_prompts prompts = Inl e" "r = Raised e" "eng' = eng"
  | (empty) "normalize_prompts prompts = Inr None" "r = Returned []" "eng' = eng"
  | (mismatch) ps where "normalize_prompts prompts = Inr (Some ps)"
      "length (broadcast_config gc (length ps)) \<noteq> length ps" "r = Raised AssertionError" "eng' = eng"
  | (submit_fault) ps e where "normalize_prompts prompts = Inr (Some ps)"
      "length (broadcast_config gc (length ps)) = length ps"
      "add_requests (set_request_stream_callback (snd (get_request_stream_callback eng)) BatchCallback) 0
         (zip ps (broadcast_config gc (length ps))) = (Some e, eng')" "r = Raised e"
  | (loop) ps eng3 r4 eng4 where "normalize_prompts prompts = Inr (Some ps)"
      "length (broadcast_config gc (length ps)) = length ps"
      "add_requests (set_request_stream_callback (snd (get_request_stream_callback eng)) BatchCallback) 0
         (zip ps (broadcast_config gc (length ps))) = (None, eng3)"
      "step_loop tk (length ps) (init_batch (broadcast_config gc (length ps)) (length ps)) eng3 = (r4, eng4)"
      "(case r4 of Returned st' \<Rightarrow> r = Returned (outputs st') \<and> eng' = set_request_stream_callback eng4 (callback_slot eng)
         | Raised e \<Rightarrow> r = Raised e \<and> eng' = eng4
         | Diverges \<Rightarrow> r = Diverges \<and> eng' = eng4)"
proof (cases "normalize_prompts prompts")
  case (Inl e)
  with assms show ?thesis by (intro bad_prompts[of e]) (auto simp: generate_def)
next
  case (Inr po)
  show ?thesis
  proof (cases po)
    case None
    with Inr assms show ?thesis by (intro empty) (auto simp: generate_def)
  next
    case (Some ps)
    note np = Inr[unfolded Some]
    show ?thesis
    proof (cases "length (broadcast_config gc (length ps)) = length ps")
      case False
      with np assms show ?thesis by (intro mismatch[of ps]) (auto simp: generate_def Let_def)
    next
      case True
      obtain r3 eng3 where ar: "add_requests (set_request_stream_callback (snd (get_request_stream_callback eng)) BatchCallback) 0
         (zip ps (broadcast_config gc (length ps))) = (r3, eng3)"
        by (metis surj_pair)
      show ?thesis
      proof (cases r3)
        case (Some e)
        with np True ar assms show ?thesis
          by (intro submit_fault[of ps e]) (auto simp: generate_def Let_def get_request_stream_callback_def)
      next
        case None
        obtain r4 eng4 where sl: "step_loop tk (length ps) (init_batch (broadcast_config gc (length ps)) (length ps)) eng3 = (r4, eng4)"
          by (metis surj_pair)
        from np True ar None sl assms show ?thesis
          by (intro loop[of ps eng3 r4 eng4])
             (auto simp: generate_def Let_def get_request_stream_callback_def split: outcome.splits)
      qed
    qed
  qed
qed

lemma pre_submit [simp]:
  "callback_slot (set_request_stream_callback (snd (get_request_stream_callback eng)) cb) = cb"
  "ffi_log (set_request_stream_callback (snd (get_request_stream_callback eng)) cb) =
     ffi_log eng @ [GetRequestStreamCallback, SetRequestStreamCallback cb]"
  "step_script (set_request_stream_callback (snd (get_request_stream_callback eng)) cb) = step_script eng"
  by (simp_all add: set_request_stream_callback_def get_request_stream_callback_def)

lemma add_request_calls_map:
  "add_request_calls (map (\<lambda>x. AddRequest (f x)) xs) = map f xs"
  by (induction xs) simp_all

lemma add_request_calls_steps: "add_request_calls (replicate k Step) = []"
  by (induction k) simp_all

lemma num_prompts_simps:
  "num_prompts (VStr s) = 1"
  "is_int p \<Longrightarrow> num_prompts (VList (p # ps)) = 1"
  "num_prompts (VList []) = 0"
  by (simp_all add: num_prompts_def normalize_prompts_def)

lemma demo_run_tokens:
  "generate demo_tokenizer demo_token_engine (VList [VInt 7, VInt 8]) (SingleConfig \<lparr>stop_strs = []\<rparr>)
     = (Returned [''Hello.''], demo_token_final)"
  by (simp add: eval_defs demo_token_engine_def demo_token_final_def)

lemma demo_run_step_fault:
  "generate demo_tokenizer (demo_engine [StepRaises]) (VStr ''Hello'') (SingleConfig \<lparr>stop_strs = []\<rparr>)
     = (Raised TVMError,
        \<lparr>callback_slot = BatchCallback,
         ffi_log = [GetRequestStreamCallback, SetRequestStreamCallback BatchCallback,
                    AddRequest \<lparr>req_request_id = ''0'', req_inputs = TextData ''Hello'',
                                req_generation_config = \<lparr>stop_strs = []\<rparr>\<rparr>, Step],
         add_request_raises = [], step_script = []\<rparr>)"
  by (simp add: eval_defs)

text \<open>
  \<^verbatim>\<open>int\<close> reads back what \<^verbatim>\<open>str\<close> writes: the id that line 312 gives to
  request \<open>i\<close> is the one that line 282 turns into the index \<open>i\<close>.
\<close>

lemma parse_digits_all_digits:
  "\<forall>c\<in>set s. is_digit c \<Longrightarrow> parse_digits acc s = Some (digits_value acc s)"
  by (induction acc s rule: parse_digits.induct) (simp_all add: digits_value_def)

lemma digit_char_props:
  assumes "d < 10"
  shows "is_digit (digit_char d)" "digit_val (digit_char d) = d" "\<not> is_space (digit_char d)"
    "digit_char d \<noteq> CHR ''-''" "digit_char d \<noteq> CHR ''+''"
proof -
  from assms consider "d = 0" | "d = 1" | "d = 2" | "d = 3" | "d = 4" | "d = 5" | "d = 6"
    | "d = 7" | "d = 8" | "d = 9" by atomize_elim arith
  then have "is_digit (digit_char d) \<and> digit_val (digit_char d) = d \<and> \<not> is_space (digit_char d) \<and>
    digit_char d \<noteq> CHR ''-'' \<and> digit_char d \<noteq> CHR ''+''"
    by cases (simp_all add: digit_char_def is_digit_def digit_val_def is_space_def)
  then show "is_digit (digit_char d)" "digit_val (digit_char d) = d" "\<not> is_space (digit_char d)"
    "digit_char d \<noteq> CHR ''-''" "digit_char d \<noteq> CHR ''+''" by simp_all
qed

lemma py_str_digits:
  "py_str n \<noteq> [] \<and> (\<forall>c\<in>set (py_str n). is_digit c \<and> \<not> is_space c) \<and>
   digits_value 0 (py_str n) = n \<and> hd (py_str n) \<noteq> CHR ''-'' \<and> hd (py_str n) \<noteq> CHR ''+''"
proof (induction n rule: py_str.induct)
  case (1 n)
  show ?case
  proof (cases "n < 10")
    case True
    then have "py_str n = [digit_char n]" by (subst py_str.simps) (simp del: py_str.simps)
    with digit_char_props[OF True] show ?thesis by (simp add: digits_value_def del: py_str.simps)
  next
    case False
    then have eq: "py_str n = py_str (n div 10) @ [digit_char (n mod 10)]"
      by (subst py_str.simps) (simp del: py_str.simps)
    have m: "n mod 10 < 10" by simp
    note IH = "1.IH"[OF False]
    have "digits_value 0 (py_str n) = 10 * (n div 10) + n mod 10"
      using IH digit_char_props(2)[OF m] by (simp add: eq digits_value_def del: py_str.simps)
    then have v: "digits_value 0 (py_str n) = n" by simp
    from IH have "hd (py_str n) = hd (py_str (n div 10))" by (simp add: eq del: py_str.simps)
    with IH v digit_char_props[OF m] show ?thesis by (auto simp: eq simp del: py_str.simps)
  qed
qed

lemma strip_no_space:
  assumes "s \<noteq> []" "\<forall>c\<in>set s. \<not> is_space c"
  shows "strip s = s"
proof -
  from assms have a: "dropWhile is_space s = s" by (cases s) simp_all
  from assms have "rev s \<noteq> []" "\<forall>c\<in>set (rev s). \<not> is_space c" by simp_all
  then have "dropWhile is_space (rev s) = rev s" by (cases "rev s") simp_all
  with a show ?thesis by (simp add: strip_def)
qed

lemma py_int_py_str:
  assumes len: "length (py_str n) \<le> max_str_digits"
  shows "py_int (py_str n) = Some (int n)"
proof -
  note d = py_str_digits[of n]
  then obtain c cs where s: "py_str n = c # cs" by (cases "py_str n") (auto simp del: py_str.simps)
  have st: "strip (py_str n) = py_str n" using d by (intro strip_no_space) (auto simp del: py_str.simps)
  have c: "is_digit c" "c \<noteq> CHR ''-''" "c \<noteq> CHR ''+''" "\<forall>x\<in>set cs. is_digit x"
    using d by (simp_all add: s del: py_str.simps)
  have "length (filter is_digit (c # cs)) \<le> length (c # cs)" by (rule length_filter_le)
  with len have "length (filter is_digit (c # cs)) \<le> max_str_digits" by (simp only: s)
  then have "parse_nat (c # cs) = Some (digits_value (digit_val c) cs)"
    using c by (simp add: parse_nat_def parse_digits_all_digits)
  also have "digits_value (digit_val c) cs = digits_value 0 (c # cs)"
    by (simp add: digits_value_def)
  also have "\<dots> = n" using d by (simp add: s del: py_str.simps)
  finally have "parse_nat (c # cs) = Some n" .
  moreover have "strip (c # cs) = c # cs" using st by (simp only: s)
  ultimately show ?thesis using c by (simp add: py_int_def s del: py_str.simps)
qed

lemma slot_of_py_str:
  "i < n \<Longrightarrow> length (py_str i) \<le> max_str_digits \<Longrightarrow> request_id d = py_str i \<Longrightarrow>
     slot_of n d = Some i"
  by (simp add: slot_of_def py_int_py_str py_index_def del: py_str.simps)

lemma py_str_length:
  "n < 10 ^ k \<Longrightarrow> 0 < k \<Longrightarrow> length (py_str n) \<le> k"
proof (induction n arbitrary: k rule: py_str.induct)
  case (1 n)
  show ?case
  proof (cases "n < 10")
    case True
    then have "py_str n = [digit_char n]" by (subst py_str.simps) (simp del: py_str.simps)
    with "1.prems" show ?thesis by (simp del: py_str.simps)
  next
    case False
    then have eq: "py_str n = py_str (n div 10) @ [digit_char (n mod 10)]"
      by (subst py_str.simps) (simp del: py_str.simps)
    from "1.prems" obtain j where k: "k = Suc j" by (cases k) auto
    from False "1.prems" k have j: "0 < j" by (cases j) auto
    from "1.prems" k have "n div 10 < 10 ^ j"
      by (simp add: less_mult_imp_div_less mult.commute)
    from "1.IH"[OF False this j] show ?thesis by (simp add: eq k del: py_str.simps)
  qed
qed

section \<open>Empty input\<close>

text \<open>
  C9. Called with an empty list of prompts, \<^verbatim>\<open>generate\<close> returns the empty
  result list and leaves the engine exactly as it was: the callback slot is neither
  read nor written, and the log gains no \<^verbatim>\<open>add_request\<close> and no \<^verbatim>\<open>step\<close>.
\<close>

theorem generate_empty_prompts:
  "generate tk eng (VList []) generation_cfg = (Returned [], eng)"
  by (simp add: generate_def normalize_prompts_def)

section \<open>The callback slot\<close>

text \<open>
  C1 as stated fails: \<^verbatim>\<open>generate\<close> has no handler around lines 301-322, so a fault
  raised by \<^verbatim>\<open>step\<close> leaves the batch callback installed. Here the engine starts
  with a user callback and its first step raises.
\<close>

theorem generate_fault_keeps_batch_callback:
  "fst (generate demo_tokenizer (demo_engine [StepRaises]) (VStr ''Hello'')
          (SingleConfig \<lparr>stop_strs = []\<rparr>)) = Raised TVMError \<and>
   callback_slot (snd (generate demo_tokenizer (demo_engine [StepRaises]) (VStr ''Hello'')
          (SingleConfig \<lparr>stop_strs = []\<rparr>))) \<noteq> callback_slot (demo_engine [StepRaises])"
  by (simp add: demo_run_step_fault) (simp add: demo_engine_def)

text \<open>
  C1, amended. When \<^verbatim>\<open>generate\<close> returns normally the callback slot holds the
  callback it held before the call. When it faults, either the engine was never
  contacted (the log is unchanged) and the slot is untouched, or the batch callback is
  still installed.
\<close>

theorem generate_callback_slot:
  assumes g: "generate tk eng prompts gc = (r, eng')"
  shows "(case r of
        Returned outs \<Rightarrow> callback_slot eng' = callback_slot eng
      | Raised e \<Rightarrow>
          if ffi_log eng' = ffi_log eng then callback_slot eng' = callback_slot eng
          else callback_slot eng' = BatchCallback
      | Diverges \<Rightarrow> True)"
  using g
proof (cases rule: generate_cases)
  case (submit_fault ps e)
  from add_requests_effect[OF submit_fault(3)] submit_fault(4) show ?thesis by auto
next
  case (loop ps eng3 r4 eng4)
  from add_requests_effect[OF loop(3)] obtain new where
    n3: "callback_slot eng3 = BatchCallback"
        "ffi_log eng3 = ffi_log eng @ [GetRequestStreamCallback, SetRequestStreamCallback BatchCallback] @ new"
    by auto
  from step_loop_effect[OF loop(4)] obtain k where
    n4: "callback_slot eng4 = callback_slot eng3" "ffi_log eng4 = ffi_log eng3 @ replicate k Step"
    by blast
  show ?thesis
    using loop(5) n3 n4 by (cases r4) (auto simp: set_request_stream_callback_def)
qed auto
theorem generate_callback_slot_witness:
  "generate demo_tokenizer demo_token_engine (VList [VInt 7, VInt 8]) (SingleConfig \<lparr>stop_strs = []\<rparr>)
     = (Returned [''Hello.''], demo_token_final) \<and>
   callback_slot demo_token_final = callback_slot demo_token_engine"
  using generate_callback_slot [OF demo_run_tokens] demo_run_tokens by simp

section \<open>Precondition faults\<close>

text \<open>
  C4 as stated fails on an empty prompt list: line 250 returns before the count of
  configs is compared, so one config for no prompt is no fault.
\<close>

theorem generate_empty_prompts_with_configs:
  "length [\<lparr>stop_strs = []\<rparr>] \<noteq> num_prompts (VList []) \<and>
   generate demo_tokenizer (demo_engine []) (VList []) (ConfigList [\<lparr>stop_strs = []\<rparr>])
     = (Returned [], demo_engine [])"
  by (simp add: num_prompts_simps generate_def normalize_prompts_def)

text \<open>
  C4, amended. When the prompts reach line 255 (a string or a non-empty list) and a
  list of generation configs has another length than the prompts, \<^verbatim>\<open>generate\<close>
  faults with the assertion of line 259 and the engine is exactly as before: no
  \<^verbatim>\<open>add_request\<close>, no \<^verbatim>\<open>step\<close>, no read or write of the callback slot.
\<close>

theorem generate_config_count_mismatch:
  "normalize_prompts prompts = Inr (Some ps) \<Longrightarrow> length cs \<noteq> length ps \<Longrightarrow>
     generate tk eng prompts (ConfigList cs) = (Raised AssertionError, eng)"
  by (simp add: generate_def broadcast_config_def)


theorem generate_config_count_mismatch_witness:
  "normalize_prompts (VList [VStr ''a'', VStr ''b'', VStr ''c''])
     = Inr (Some [VStr ''a'', VStr ''b'', VStr ''c'']) \<and>
   length [\<lparr>stop_strs = []\<rparr>, \<lparr>stop_strs = [''!'']\<rparr>] \<noteq> length [VStr ''a'', VStr ''b'', VStr ''c''] \<and>
   generate demo_tokenizer (demo_engine [])
     (VList [VStr ''a'', VStr ''b'', VStr ''c'']) (ConfigList [\<lparr>stop_strs = []\<rparr>, \<lparr>stop_strs = [''!'']\<rparr>])
     = (Raised AssertionError, demo_engine [])"
proof -
  have n: "normalize_prompts (VList [VStr ''a'', VStr ''b'', VStr ''c''])
     = Inr (Some [VStr ''a'', VStr ''b'', VStr ''c''])"
    by (simp add: normalize_prompts_def)
  have l: "length [\<lparr>stop_strs = []\<rparr>, \<lparr>stop_strs = [''!'']\<rparr>] \<noteq> length [VStr ''a'', VStr ''b'', VStr ''c'']"
    by simp
  from generate_config_count_mismatch [OF n l] n l show ?thesis by blast
qed

section \<open>Promotion of a single prompt\<close>

text \<open>
  C10. \<open>num_prompts\<close> is the number of prompts after lines 241-253: a bare string
  counts as one prompt, and so does a non-empty list whose first element is an int
  or a bool; the empty list holds no prompt, and any other list of \<open>k\<close> elements
  holds \<open>k\<close> prompts. \<^verbatim>\<open>generate\<close> returns only for a string or a list, and
  whenever it returns, the result list has \<open>num_prompts\<close> entries and exactly that
  many requests were handed to \<^verbatim>\<open>add_request\<close> during the call.
\<close>

theorem generate_result_length:
  "num_prompts (VStr s) = 1 \<and>
   num_prompts (VList (VInt t # ps)) = 1 \<and>
   num_prompts (VList (VBool b # ps)) = 1 \<and>
   num_prompts (VList []) = 0 \<and>
   num_prompts (VList (VStr s # ps)) = Suc (length ps) \<and>
   num_prompts (VList (VList ts # ps)) = Suc (length ps) \<and>
   num_prompts (VList (VNone # ps)) = Suc (length ps) \<and>
   (generate tk eng prompts gc = (Returned outs, eng') \<longrightarrow>
      ((\<exists>s'. prompts = VStr s') \<or> (\<exists>ps'. prompts = VList ps')) \<and>
      length outs = num_prompts prompts \<and>
      length (add_request_calls (ffi_log eng')) =
        length (add_request_calls (ffi_log eng)) + num_prompts prompts)"
proof (intro conjI impI)
  assume g: "generate tk eng prompts gc = (Returned outs, eng')"
  then have "length outs = num_prompts prompts \<and>
      length (add_request_calls (ffi_log eng')) =
        length (add_request_calls (ffi_log eng)) + num_prompts prompts"
  proof (cases rule: generate_cases)
    case (loop qs eng3 r4 eng4)
    let ?cfgs = "broadcast_config gc (length qs)"
    from loop(5) obtain st' where r4: "r4 = Returned st'" and outs: "outs = outputs st'"
      and eng': "eng' = set_request_stream_callback eng4 (callback_slot eng)"
      by (cases r4) auto
    from add_requests_effect[OF loop(3)] obtain new where
      new: "ffi_log eng3 = ffi_log eng @ [GetRequestStreamCallback, SetRequestStreamCallback BatchCallback] @ new"
        "new = map (\<lambda>(i, (p, c)). AddRequest (make_request i p c)) (zip [0..<0 + length (zip qs ?cfgs)] (zip qs ?cfgs))"
      by auto
    have calls: "add_request_calls new = map (\<lambda>(i, (p, c)). make_request i p c) (zip [0..<length qs] (zip qs ?cfgs))"
      unfolding new(2) using loop(2) add_request_calls_map[of "\<lambda>(i, (p, c)). make_request i p c"]
      by (simp add: split_def)
    from step_loop_effect[OF loop(4), of "length qs"] r4 obtain k where
      k: "ffi_log eng4 = ffi_log eng3 @ replicate k Step" and sz: "has_size (length qs) st'"
      by (auto simp: init_batch_size)
    note steps = add_request_calls_steps[of k]
    have "length (add_request_calls (ffi_log eng')) = length (add_request_calls (ffi_log eng)) + length qs"
      using eng' k new(1) calls loop(2) steps by (simp add: set_request_stream_callback_def)
    with sz outs loop(1) show ?thesis by (simp add: num_prompts_def has_size_def)
  qed (auto simp: num_prompts_def)
  then show "length outs = num_prompts prompts"
    and "length (add_request_calls (ffi_log eng')) =
        length (add_request_calls (ffi_log eng)) + num_prompts prompts" by simp_all
  from g show "(\<exists>s'. prompts = VStr s') \<or> (\<exists>ps'. prompts = VList ps')"
    by (cases prompts) (simp_all add: generate_def normalize_prompts_def)
qed (simp_all add: num_prompts_def normalize_prompts_def)

theorem generate_result_length_witness:
  "generate demo_tokenizer demo_token_engine (VList [VInt 7, VInt 8]) (SingleConfig \<lparr>stop_strs = []\<rparr>)
     = (Returned [''Hello.''], demo_token_final) \<and>
   num_prompts (VList [VInt 7, VInt 8]) = 1 \<and>
   length [''Hello.''] = num_prompts (VList [VInt 7, VInt 8]) \<and>
   length (add_request_calls (ffi_log demo_token_final)) =
     length (add_request_calls (ffi_log demo_token_engine)) + num_prompts (VList [VInt 7, VInt 8])"
proof -
  note r = generate_result_length [where t = 7 and ps = "[VInt 8]" and tk = demo_tokenizer
      and eng = demo_token_engine and prompts = "VList [VInt 7, VInt 8]"
      and gc = "SingleConfig \<lparr>stop_strs = []\<rparr>" and outs = "[''Hello.'']" and eng' = demo_token_final]
  from r have one: "num_prompts (VList [VInt 7, VInt 8]) = 1" by blast
  from r demo_run_tokens have
    "length [''Hello.''] = num_prompts (VList [VInt 7, VInt 8]) \<and>
     length (add_request_calls (ffi_log demo_token_final)) =
       length (add_request_calls (ffi_log demo_token_engine)) + num_prompts (VList [VInt 7, VInt 8])"
    by blast
  with one demo_run_tokens show ?thesis by blast
qed

lemma request_stream_callback_append:
  "request_stream_callback tk st (xs @ ys) =
     (case request_stream_callback tk st xs of
        Inl e \<Rightarrow> Inl e
      | Inr st' \<Rightarrow> request_stream_callback tk st' ys)"
  by (induction xs arbitrary: st) (auto split: sum.splits)

lemma handle_out_of_range:
  assumes "length (text_streamers st) = n" "py_int (request_id d) = Some rid"
    "rid < - int n \<or> int n \<le> rid"
  shows "handle_delta_output tk st d = Inl IndexError"
  using assms by (auto simp: handle_delta_output_def  py_index_def)

lemma handle_negative_id:
  assumes "has_size n st" "py_int (request_id d) = Some rid" "- int n \<le> rid" "rid < 0"
    "py_int (request_id d') = Some (rid + int n)"
    "delta_token_ids d' = delta_token_ids d" "finish_reason d' = finish_reason d"
  shows "handle_delta_output tk st d = handle_delta_output tk st d'"
proof -
  have eq: "py_index n rid = py_index n (rid + int n)"
    using assms(3,4) by (auto simp: py_index_def Let_def)
  have lens: "length (outputs st) = n" "length (text_streamers st) = n"
    "length (stop_handlers st) = n"
    using assms(1) by (simp_all add: has_size_def)
  show ?thesis
    by (simp add: handle_delta_output_def  lens eq assms(2,5,6,7) cong: sum.case_cong)
qed


section \<open>Request ids outside the batch\<close>

text \<open>
  C7 as stated fails for negative ids: \<^verbatim>\<open>text_streamers[rid]\<close> is Python list
  indexing, so in a batch of two requests the id \<open>-1\<close> is no fault. The event is
  routed to request \<open>1\<close>, whose output, streamer, handler and finish reason change.
\<close>

theorem negative_request_id_is_routed:
  "py_int ''-1'' = Some (- 1) \<and>
   request_stream_callback demo_tokenizer demo_batch2 [ev ''-1'' [0, 3] (Some ''length'')] =
     Inr \<lparr>num_finished_requests = 1, outputs = [[], ''Hello.''],
          text_streamers =
            [\<lparr>ts_tokens = [], ts_cursor = 0, ts_finished = False\<rparr>,
             \<lparr>ts_tokens = [0, 3], ts_cursor = 6, ts_finished = True\<rparr>],
          stop_handlers =
            [\<lparr>sh_stop_strs = [], sh_held = [], stop_triggered = False, sh_closed = False\<rparr>,
             \<lparr>sh_stop_strs = [], sh_held = [], stop_triggered = False, sh_closed = True\<rparr>],
          finish_reasons = [None, Some ''length'']\<rparr>"
  by (simp add: eval_defs demo_batch2_def upt_rec)

text \<open>
  C7, amended. In a batch of \<open>n\<close> requests, an event whose id \<open>rid\<close> satisfies
  \<open>rid \<ge> n\<close> or \<open>rid < -n\<close> makes the callback fault with IndexError at line 283,
  before any per-request state is touched, wherever the event stands in a delivery
  whose earlier events were handled. An event with a negative id \<open>-n \<le> rid < 0\<close> is
  not rejected: the callback does exactly what it does for the same event carrying the
  id \<open>rid + n\<close>.
\<close>

theorem request_id_range:
  assumes "has_size n st0" "request_stream_callback tk st0 pre = Inr st"
    "py_int (request_id d) = Some rid"
  shows "(rid < - int n \<or> int n \<le> rid \<longrightarrow>
            request_stream_callback tk st0 (pre @ d # rest) = Inl IndexError) \<and>
         (- int n \<le> rid \<and> rid < 0 \<longrightarrow>
            (\<forall>d' :: request_stream_output. py_int (request_id d') = Some (rid + int n) \<and>
                  delta_token_ids d' = delta_token_ids d \<and> finish_reason d' = finish_reason d \<longrightarrow>
               request_stream_callback tk st0 (pre @ d # rest) =
               request_stream_callback tk st0 (pre @ d' # rest)))"
proof -
  have sz: "has_size n st" using assms(1,2) by (rule request_stream_callback_size[rotated])
  show ?thesis
  proof (intro conjI impI allI)
    assume "rid < - int n \<or> int n \<le> rid"
    with sz assms(3) have "handle_delta_output tk st d = Inl IndexError"
      by (intro handle_out_of_range[of st n]) (auto simp: has_size_def)
    then show "request_stream_callback tk st0 (pre @ d # rest) = Inl IndexError"
      using assms(2) by (simp add: request_stream_callback_append)
  next
    fix d' :: request_stream_output
    assume r: "- int n \<le> rid \<and> rid < 0"
      and d': "py_int (request_id d') = Some (rid + int n) \<and>
                  delta_token_ids d' = delta_token_ids d \<and> finish_reason d' = finish_reason d"
    have "handle_delta_output tk st d = handle_delta_output tk st d'"
      using sz assms(3) r d' by (intro handle_negative_id[of n st d rid d']) auto
    then show "request_stream_callback tk st0 (pre @ d # rest) =
               request_stream_callback tk st0 (pre @ d' # rest)"
      using assms(2) by (simp add: request_stream_callback_append)
  qed
qed


theorem request_id_range_witness:
  "has_size 2 demo_batch2 \<and>
   request_stream_callback demo_tokenizer demo_batch2 [] = Inr demo_batch2 \<and>
   py_int ''2'' = Some 2 \<and>
   request_stream_callback demo_tokenizer demo_batch2 ([] @ ev ''2'' [0] None # []) = Inl IndexError \<and>
   py_int ''-1'' = Some (- 1) \<and> py_int ''1'' = Some 1 \<and>
   request_stream_callback demo_tokenizer demo_batch2 ([] @ ev ''-1'' [0] None # []) =
   request_stream_callback demo_tokenizer demo_batch2 ([] @ ev ''1'' [0] None # [])"
proof -
  have sz: "has_size 2 demo_batch2" by (simp add: demo_batch2_def init_batch_size)
  have run: "request_stream_callback demo_tokenizer demo_batch2 [] = Inr demo_batch2" by simp
  have two: "py_int (request_id (ev ''2'' [0] None)) = Some 2"
    and neg: "py_int (request_id (ev ''-1'' [0] None)) = Some (- 1)"
    and one: "py_int (request_id (ev ''1'' [0] None)) = Some 1"
    by (simp_all add: eval_defs)
  from request_id_range [OF sz run two, of "[]"]
  have a: "request_stream_callback demo_tokenizer demo_batch2 ([] @ ev ''2'' [0] None # []) = Inl IndexError"
    by simp
  from request_id_range [OF sz run neg, of "[]"] one
  have b: "request_stream_callback demo_tokenizer demo_batch2 ([] @ ev ''-1'' [0] None # []) =
     request_stream_callback demo_tokenizer demo_batch2 ([] @ ev ''1'' [0] None # [])"
    by (simp add: ev_def)
  from sz run two neg one a b show ?thesis by (simp add: ev_def)
qed

lemma handle_view:
  assumes sz: "has_size n st" and h: "handle_delta_output tk st d = Inr st'"
  obtains j where "slot_of n d = Some j" "j < n"
    "apply_event tk (request_view st j) d = Inr (request_view st' j)"
    "\<And>i. i \<noteq> j \<Longrightarrow> request_view st' i = request_view st i"
    "num_finished_requests st' =
       (if rs_reason (request_view st' j) \<noteq> None then num_finished_requests st + 1
        else num_finished_requests st)"
proof -
  from sz have lens: "length (outputs st) = n" "length (text_streamers st) = n"
    "length (stop_handlers st) = n" "length (finish_reasons st) = n"
    by (simp_all add: has_size_def)
  from h obtain rid where rid: "py_int (request_id d) = Some rid"
    by (auto simp: handle_delta_output_def split: option.splits)
  from h rid obtain j where j: "py_index n rid = Inr j"
    by (auto simp: handle_delta_output_def  lens split: sum.splits)
  then have jn: "j < n" by (rule py_index_range)
  from h rid j obtain delta_text fr ts' sh' where
    r: "resolve_delta tk (text_streamers st ! j) (stop_handlers st ! j)
          (delta_token_ids d) (finish_reason d) = Inr (delta_text, fr, ts', sh')"
    by (auto simp: handle_delta_output_def  lens split: sum.splits)
  from h rid j r have st': "st' = st\<lparr>
        num_finished_requests :=
          (if fr \<noteq> None then num_finished_requests st + 1 else num_finished_requests st),
        outputs := (outputs st)[j := outputs st ! j @ delta_text],
        text_streamers := (text_streamers st)[j := ts'],
        stop_handlers := (stop_handlers st)[j := sh'],
        finish_reasons := (finish_reasons st)[j := fr]\<rparr>"
    by (simp add: handle_delta_output_def  lens)
  show ?thesis
  proof (rule that[of j])
    show "slot_of n d = Some j" using rid j by (simp add: slot_of_def)
    show "j < n" by fact
    show "apply_event tk (request_view st j) d = Inr (request_view st' j)"
      using r jn lens by (simp add: apply_event_def request_view_def st')
    show "request_view st' i = request_view st i" if "i \<noteq> j" for i
      using that by (simp add: request_view_def st')
    show "num_finished_requests st' =
       (if rs_reason (request_view st' j) \<noteq> None then num_finished_requests st + 1
        else num_finished_requests st)"
      using jn lens by (simp add: request_view_def st')
  qed
qed

lemma run_view:
  assumes "has_size n st" "request_stream_callback tk st evs = Inr st'"
  shows "replay tk (request_view st i) (events_for n i evs) = Inr (request_view st' i)"
  using assms
proof (induction evs arbitrary: st)
  case Nil
  then show ?case by (simp add: events_for_def)
next
  case (Cons d evs)
  from Cons.prems(2) obtain st1 where h: "handle_delta_output tk st d = Inr st1"
    and rest: "request_stream_callback tk st1 evs = Inr st'"
    by (auto split: sum.splits)
  have sz1: "has_size n st1" using h Cons.prems(1) by (rule handle_delta_output_size)
  note IH = Cons.IH[OF sz1 rest]
  from Cons.prems(1) h show ?case
  proof (cases rule: handle_view)
    case (1 j)
    show ?thesis
    proof (cases "i = j")
      case True
      with 1 IH show ?thesis by (simp add: events_for_def)
    next
      case False
      with 1 IH show ?thesis by (simp add: events_for_def)
    qed
  qed
qed


lemma deliver_concat: "deliver tk st ds = request_stream_callback tk st (concat ds)"
  by (induction ds arbitrary: st) (auto simp: request_stream_callback_append split: sum.splits)

lemma step_loop_run:
  "step_loop tk n st eng = (Returned st', eng') \<Longrightarrow>
     request_stream_callback tk st (delivered_events eng eng') = Inr st' \<and>
     length (step_script eng') \<le> length (step_script eng)"
proof (induction tk n st eng rule: step_loop.induct)
  case (1 tk n st eng)
  show ?case
  proof (cases "num_finished_requests st = n")
    case True
    with "1.prems" show ?thesis by (auto simp: delivered_events_def)
  next
    case False
    note nf = this
    show ?thesis
    proof (cases "step_script eng")
      case Nil
      with nf "1.prems" show ?thesis by auto
    next
      case (Cons s rest)
      show ?thesis
      proof (cases s)
        case StepRaises
        with nf Cons "1.prems" show ?thesis by auto
      next
        case (StepDelivers ds)
        show ?thesis
        proof (cases "deliver tk st ds")
          case (Inl e)
          with nf Cons StepDelivers "1.prems" show ?thesis by auto
        next
          case (Inr st1)
          with nf Cons StepDelivers "1.prems"
          have rec: "step_loop tk n st1 (log_step eng) = (Returned st', eng')" by simp
          have scr: "step_script (log_step eng) = rest" using Cons by (simp add: log_step_def)
          from "1.IH"[OF nf Cons StepDelivers Inr rec] scr
          have run: "request_stream_callback tk st1 (delivered_events (log_step eng) eng') = Inr st'"
            and le: "length (step_script eng') \<le> length rest" by auto
          have "delivered_events eng eng' = concat ds @ delivered_events (log_step eng) eng'"
            using le Cons StepDelivers scr
            by (simp add: delivered_events_def Suc_diff_le step_events_def)
          with run Inr le Cons show ?thesis
            by (simp add: request_stream_callback_append deliver_concat)
        qed
      qed
    qed
  qed
qed

lemma add_requests_script:
  "add_requests eng k xs = (r, eng') \<Longrightarrow> step_script eng' = step_script eng"
  by (drule add_requests_effect) simp

lemma view_init:
  "i < n \<Longrightarrow> request_view (init_batch cfgs n) i = fresh_request (cfgs ! i)"
  by (simp add: request_view_def init_batch_def fresh_request_def)

text \<open>What generate returns is the output list of the callback run over the delivered events.\<close>

lemma generate_returns_run:
  assumes g: "generate tk eng prompts gc = (Returned outs, eng')"
    and np: "normalize_prompts prompts = Inr (Some ps)"
  obtains st where
    "request_stream_callback tk (init_batch (broadcast_config gc (length ps)) (length ps))
       (delivered_events eng eng') = Inr st"
    "outputs st = outs" "num_finished_requests st = length ps" "has_size (length ps) st"
    "length (broadcast_config gc (length ps)) = length ps"
    "add_request_calls (ffi_log eng') = add_request_calls (ffi_log eng) @
       map (\<lambda>i. make_request i (ps ! i) (broadcast_config gc (length ps) ! i)) [0..<length ps]"
  using g
proof (cases rule: generate_cases)
  case (loop qs eng3 r4 eng4)
  let ?cfgs = "broadcast_config gc (length ps)"
  from loop(1) np have qs: "qs = ps" by simp
  from loop(5) obtain st' where r4: "r4 = Returned st'" and outs: "outs = outputs st'"
    and eng': "eng' = set_request_stream_callback eng4 (callback_slot eng)"
    by (cases r4) auto
  note sl = loop(4)[unfolded r4 qs]
  from step_loop_run[OF sl] have run: "request_stream_callback tk (init_batch ?cfgs (length ps))
       (delivered_events eng3 eng4) = Inr st'" by simp
  have s3: "step_script eng3 = step_script eng"
    using add_requests_script[OF loop(3)] by simp
  have de: "delivered_events eng eng' = delivered_events eng3 eng4"
    by (simp add: delivered_events_def s3 eng' set_request_stream_callback_def)
  from step_loop_effect[OF sl, of "length ps"] obtain k where
    nf: "num_finished_requests st' = length ps" and sz: "has_size (length ps) st'"
    and k: "ffi_log eng4 = ffi_log eng3 @ replicate k Step"
    by (auto simp: init_batch_size)
  from add_requests_effect[OF loop(3)] obtain new where
      new: "ffi_log eng3 = ffi_log eng @ [GetRequestStreamCallback, SetRequestStreamCallback BatchCallback] @ new"
        "new = map (\<lambda>(i, (p, c)). AddRequest (make_request i p c)) (zip [0..<0 + length (zip qs (broadcast_config gc (length qs)))] (zip qs (broadcast_config gc (length qs))))"
      by auto
  have "add_request_calls new = map (\<lambda>(i, (p, c)). make_request i p c) (zip [0..<length ps] (zip ps ?cfgs))"
    unfolding new(2) qs using loop(2)[unfolded qs] add_request_calls_map[of "\<lambda>(i, (p, c)). make_request i p c"]
    by (simp add: split_def)
  also have "\<dots> = map (\<lambda>i. make_request i (ps ! i) (?cfgs ! i)) [0..<length ps]"
    using loop(2)[unfolded qs] by (intro nth_equalityI) simp_all
  finally have calls: "add_request_calls new = map (\<lambda>i. make_request i (ps ! i) (?cfgs ! i)) [0..<length ps]" .
  have log: "add_request_calls (ffi_log eng') = add_request_calls (ffi_log eng) @
       map (\<lambda>i. make_request i (ps ! i) (?cfgs ! i)) [0..<length ps]"
    using eng' k new(1) calls add_request_calls_steps[of k] by (simp add: set_request_stream_callback_def)
  show ?thesis
    using run de outs nf sz loop(2)[unfolded qs] log by (intro that[of st']) simp_all
qed (use np in auto)


lemma demo_run_interleaved:
  "generate demo_tokenizer demo_interleaved_engine (VList [VStr ''a'', VStr ''b''])
     (SingleConfig \<lparr>stop_strs = []\<rparr>)
   = (Returned [''Hello..'', ''World.''], demo_interleaved_final)"
  by (simp add: eval_defs demo_interleaved_engine_def demo_interleaved_final_def)


section \<open>Order of the results\<close>

text \<open>
  C5. Whenever \<^verbatim>\<open>generate\<close> returns for prompts \<open>0..N-1\<close>, the requests were
  submitted in that order, request \<open>i\<close> under the id \<open>str(i)\<close>, and the result list
  has \<open>N\<close> entries. The callback reads the id \<open>str(i)\<close> back as the index \<open>i\<close> (for
  an id within the interpreter's limit of 4300 digits, that is for \<open>i\<close> below
  \<open>10^4300\<close>), so every event that carries this id is addressed to slot \<open>i\<close>, and to
  no other. Entry \<open>i\<close> of the result is the output accumulated from the events
  addressed to slot \<open>i\<close> alone, taken in their arrival order: it does not depend on
  how these events interleave with the events of other requests, nor on which
  request finishes first.
\<close>

theorem generate_order_preserved:
  assumes "generate tk eng prompts gc = (Returned outs, eng')"
    and "normalize_prompts prompts = Inr (Some ps)"
  shows "length outs = length ps \<and>
     add_request_calls (ffi_log eng') = add_request_calls (ffi_log eng) @
       map (\<lambda>i. make_request i (ps ! i) (broadcast_config gc (length ps) ! i)) [0..<length ps] \<and>
     (\<forall>i<length ps.
        req_request_id (make_request i (ps ! i) (broadcast_config gc (length ps) ! i)) = py_str i \<and>
        (length (py_str i) \<le> max_str_digits \<longrightarrow>
           py_int (py_str i) = Some (int i) \<and>
           (\<forall>d :: request_stream_output. request_id d = py_str i \<longrightarrow>
              slot_of (length ps) d = Some i \<and>
              (\<forall>evs1 evs2. events_for (length ps) i (evs1 @ d # evs2) =
                 events_for (length ps) i evs1 @ d # events_for (length ps) i evs2))) \<and>
        map_sum id rs_output
          (replay tk (fresh_request (broadcast_config gc (length ps) ! i))
             (events_for (length ps) i (delivered_events eng eng'))) = Inr (outs ! i))"
  using assms
proof (cases rule: generate_returns_run)
  case (1 st)
  have rp: "map_sum id rs_output
          (replay tk (fresh_request (broadcast_config gc (length ps) ! i))
             (events_for (length ps) i (delivered_events eng eng'))) = Inr (outs ! i)"
    if "i < length ps" for i
  proof -
    have "replay tk (fresh_request (broadcast_config gc (length ps) ! i))
             (events_for (length ps) i (delivered_events eng eng')) = Inr (request_view st i)"
      using run_view[OF init_batch_size 1(1), of i] that by (simp only: view_init)
    then show ?thesis using 1(2) by (simp add: request_view_def)
  qed
  have id: "req_request_id (make_request i p c) = py_str i" for i p c
    by (simp add: make_request_def del: py_str.simps)
  have slot: "slot_of (length ps) d = Some i \<and>
      (\<forall>evs1 evs2. events_for (length ps) i (evs1 @ d # evs2) =
         events_for (length ps) i evs1 @ d # events_for (length ps) i evs2)"
    if "i < length ps" "length (py_str i) \<le> max_str_digits" "request_id d = py_str i"
    for i and d :: request_stream_output
    using slot_of_py_str[OF that] by (simp add: events_for_def del: py_str.simps)
  from 1 rp id slot py_int_py_str show ?thesis
    by (simp add: has_size_def del: py_str.simps)
qed

theorem generate_order_preserved_witness:
  "generate demo_tokenizer demo_interleaved_engine (VList [VStr ''a'', VStr ''b''])
     (SingleConfig \<lparr>stop_strs = []\<rparr>)
   = (Returned [''Hello..'', ''World.''], demo_interleaved_final) \<and>
   normalize_prompts (VList [VStr ''a'', VStr ''b'']) = Inr (Some [VStr ''a'', VStr ''b'']) \<and>
   delivered_events demo_interleaved_engine demo_interleaved_final =
     [ev ''1'' [2] None, ev ''0'' [0] None, ev ''1'' [3] (Some ''length''), ev ''0'' [3, 3] (Some ''stop'')] \<and>
   req_request_id (make_request 1 (VStr ''b'') \<lparr>stop_strs = []\<rparr>) = ''1'' \<and>
   py_int ''1'' = Some 1 \<and>
   slot_of 2 (ev ''1'' [3] (Some ''length'')) = Some 1 \<and>
   map_sum id rs_output
     (replay demo_tokenizer (fresh_request \<lparr>stop_strs = []\<rparr>)
        [ev ''0'' [0] None, ev ''0'' [3, 3] (Some ''stop'')]) = Inr ''Hello..'' \<and>
   map_sum id rs_output
     (replay demo_tokenizer (fresh_request \<lparr>stop_strs = []\<rparr>)
        [ev ''1'' [2] None, ev ''1'' [3] (Some ''length'')]) = Inr ''World.''"
proof -
  have np: "normalize_prompts (VList [VStr ''a'', VStr ''b'']) = Inr (Some [VStr ''a'', VStr ''b''])"
    by (simp add: normalize_prompts_def)
  have de: "delivered_events demo_interleaved_engine demo_interleaved_final =
     [ev ''1'' [2] None, ev ''0'' [0] None, ev ''1'' [3] (Some ''length''), ev ''0'' [3, 3] (Some ''stop'')]"
    by (simp add: delivered_events_def demo_interleaved_engine_def demo_interleaved_final_def
        demo_engine_def step_events_def)
  have e0: "events_for (Suc (Suc 0)) 0 [ev ''1'' [2] None, ev ''0'' [0] None, ev ''1'' [3] (Some ''length''), ev ''0'' [3, 3] (Some ''stop'')]
      = [ev ''0'' [0] None, ev ''0'' [3, 3] (Some ''stop'')]"
    and e1: "events_for (Suc (Suc 0)) (Suc 0) [ev ''1'' [2] None, ev ''0'' [0] None, ev ''1'' [3] (Some ''length''), ev ''0'' [3, 3] (Some ''stop'')]
      = [ev ''1'' [2] None, ev ''1'' [3] (Some ''length'')]"
    by (simp_all add: events_for_def slot_of_def eval_defs)
  have s1: "py_str (Suc 0) = ''1''" by (simp add: digit_char_def)
  have l1: "length ''1'' \<le> max_str_digits" by (simp add: max_str_digits_def)
  have i0: "0 < length [VStr ''a'', VStr ''b'']" and i1: "Suc 0 < length [VStr ''a'', VStr ''b'']"
    by simp_all
  note all = generate_order_preserved [OF demo_run_interleaved np, THEN conjunct2, THEN conjunct2, rule_format]
  note a0 = all[OF i0, THEN conjunct2, THEN conjunct2]
  note a1 = all[OF i1]
  have r0: "map_sum id rs_output
     (replay demo_tokenizer (fresh_request \<lparr>stop_strs = []\<rparr>)
        [ev ''0'' [0] None, ev ''0'' [3, 3] (Some ''stop'')]) = Inr ''Hello..''"
    using a0 by (simp add: de e0 broadcast_config_def del: replay.simps)
  have r1: "map_sum id rs_output
     (replay demo_tokenizer (fresh_request \<lparr>stop_strs = []\<rparr>)
        [ev ''1'' [2] None, ev ''1'' [3] (Some ''length'')]) = Inr ''World.''"
    using a1[THEN conjunct2, THEN conjunct2] by (simp add: de e1 broadcast_config_def del: replay.simps)
  have q1: "req_request_id (make_request 1 (VStr ''b'') \<lparr>stop_strs = []\<rparr>) = ''1''"
    using a1[THEN conjunct1] by (simp add: s1 broadcast_config_def del: py_str.simps)
  note g1 = a1[THEN conjunct2, THEN conjunct1, unfolded s1, rule_format, OF l1]
  have p1: "py_int ''1'' = Some 1" using g1[THEN conjunct1] by simp
  have "request_id (ev ''1'' [3] (Some ''length'')) = ''1''" by (simp add: ev_def)
  from g1[THEN conjunct2, rule_format, OF this, THEN conjunct1]
  have t1: "slot_of 2 (ev ''1'' [3] (Some ''length'')) = Some 1" by (simp add: numeral_2_eq_2)
  from r0 r1 q1 p1 t1 de np demo_run_interleaved show ?thesis by blast
qed












section \<open>The count of finished requests\<close>








lemma sh_put_triggered: "stop_triggered h \<Longrightarrow> sh_put h txt = ([], h)"
  by (simp add: sh_put_def)



lemma ts_put_unfinished:
  "ts_put tk ts toks = Inr (txt, ts') \<Longrightarrow> \<not> ts_finished ts \<and> \<not> ts_finished ts'"
  by (auto simp: ts_put_def Let_def split: if_splits)

lemma ts_finish_finished:
  "ts_finish tk ts = Inr (txt, ts') \<Longrightarrow> ts_finished ts'"
  by (auto simp: ts_finish_def Let_def split: if_splits)

lemma sh_finish_triggered:
  "sh_finish h = Inr (txt, h') \<Longrightarrow> stop_triggered h' = stop_triggered h"
  by (auto simp: sh_finish_def split: if_splits)

lemma resolve_post:
  assumes "resolve_delta tk ts sh toks fr = Inr (delta_text, fr', ts', sh')"
  shows "(fr' \<noteq> None \<longrightarrow> stop_triggered sh' \<or> ts_finished ts') \<and>
         (stop_triggered sh' \<longrightarrow> fr' = Some ''stop'') \<and>
         (\<not> stop_triggered sh' \<longrightarrow> fr' = fr)"
proof -
  from assms obtain tx1 ts1 where p1: "ts_put tk ts toks = Inr (tx1, ts1)"
    by (auto simp: resolve_delta_def split: sum.splits)
  obtain d1 sh1 where s1: "sh_put sh tx1 = (d1, sh1)" by (cases "sh_put sh tx1")
  show ?thesis
  proof (cases "stop_triggered sh1")
    case True
    with assms p1 s1 show ?thesis by (auto simp: resolve_delta_def)
  next
    case nt: False
    show ?thesis
    proof (cases "fr = None")
      case True
      with assms p1 s1 nt show ?thesis by (auto simp: resolve_delta_def)
    next
      case False
      with assms p1 s1 nt obtain tx2 ts2 where f: "ts_finish tk ts1 = Inr (tx2, ts2)"
        by (auto simp: resolve_delta_def split: sum.splits)
      obtain d2 sh2 where s2: "sh_put sh1 tx2 = (d2, sh2)" by (cases "sh_put sh1 tx2")
      show ?thesis
      proof (cases "stop_triggered sh2")
        case True
        with assms p1 s1 nt False f s2 show ?thesis by (auto simp: resolve_delta_def)
      next
        case nt2: False
        with assms p1 s1 nt False f s2 obtain d3 sh3 where
          sf: "sh_finish sh2 = Inr (d3, sh3)" and r: "fr' = fr" "ts' = ts2" "sh' = sh3"
          by (auto simp: resolve_delta_def split: sum.splits)
        from sh_finish_triggered[OF sf] nt2 ts_finish_finished[OF f] r False
        show ?thesis by auto
      qed
    qed
  qed
qed

lemma apply_event_done_inv: "apply_event tk v d = Inr v' \<Longrightarrow> done_inv v'"
  by (auto simp: apply_event_def done_inv_def split: sum.splits dest!: resolve_post)

lemma replay_done_inv: "replay tk v evs = Inr v' \<Longrightarrow> done_inv v \<Longrightarrow> done_inv v'"
  by (induction evs arbitrary: v) (auto split: sum.splits dest: apply_event_done_inv)

lemma fresh_done_inv: "done_inv (fresh_request cfg)"
  by (simp add: done_inv_def fresh_request_def new_stop_handler_def)

lemma reachable_done_inv:
  assumes "request_stream_callback tk (init_batch cfgs n) evs = Inr st" "i < n"
  shows "done_inv (request_view st i)"
  using run_view[OF init_batch_size assms(1), of i] assms(2)
  by (auto simp: view_init intro: replay_done_inv fresh_done_inv)


section \<open>Events for a request that is Done\<close>






lemma stable_decodingD:
  assumes "stable_decoding tk"
  shows "prefix (stable tk h) (stable tk (h @ ext))" "prefix (stable tk h) (decode tk (h @ ext))"
    "prefix (stable tk h) (decode tk h)"
  using assms unfolding stable_decoding_def by (metis append_Nil2)+

lemma take_prefix_eq: "prefix a b \<Longrightarrow> c \<le> length a \<Longrightarrow> take c b = take c a"
  by (auto simp: prefix_def)

lemma ts_put_emitted:
  assumes sd: "stable_decoding tk" and inv: "ts_inv tk ts" and p: "ts_put tk ts toks = Inr (t, ts')"
  shows "emitted tk ts' = emitted tk ts @ t" "ts_inv tk ts'" "ts_tokens ts' = ts_tokens ts @ toks"
    "\<not> ts_finished ts" "\<not> ts_finished ts'"
proof -
  from p have nf: "\<not> ts_finished ts" by (auto simp: ts_put_def split: if_splits)
  let ?L = "stable tk (ts_tokens ts @ toks)"
  from p nf have t: "t = drop (ts_cursor ts) ?L"
    and ts': "ts' = ts\<lparr>ts_tokens := ts_tokens ts @ toks, ts_cursor := ts_cursor ts + length t\<rparr>"
    by (auto simp: ts_put_def Let_def)
  from inv nf have c: "ts_cursor ts \<le> length (stable tk (ts_tokens ts))" by (simp add: ts_inv_def)
  have pre: "prefix (stable tk (ts_tokens ts)) ?L" using sd by (rule stable_decodingD)
  then have cl: "ts_cursor ts \<le> length ?L" using c by (meson order_trans prefix_length_le)
  have tk: "take (ts_cursor ts) ?L = take (ts_cursor ts) (stable tk (ts_tokens ts))"
    using pre c by (rule take_prefix_eq)
  have len: "ts_cursor ts + length t = length ?L" using cl by (simp add: t)
  show "\<not> ts_finished ts" by fact
  show "\<not> ts_finished ts'" using nf by (simp add: ts')
  show "ts_tokens ts' = ts_tokens ts @ toks" by (simp add: ts')
  show "ts_inv tk ts'" using len by (simp add: ts_inv_def ts')
  have "emitted tk ts' = ?L" using nf len by (simp add: emitted_def ts')
  also have "\<dots> = take (ts_cursor ts) ?L @ drop (ts_cursor ts) ?L" by simp
  also have "\<dots> = emitted tk ts @ t" using nf by (simp add: tk t emitted_def)
  finally show "emitted tk ts' = emitted tk ts @ t" .
qed

lemma ts_finish_emitted:
  assumes sd: "stable_decoding tk" and inv: "ts_inv tk ts" and p: "ts_finish tk ts = Inr (t, ts')"
  shows "emitted tk ts' = emitted tk ts @ t" "ts_inv tk ts'" "ts_tokens ts' = ts_tokens ts"
    "ts_finished ts'" "emitted tk ts' = decode tk (ts_tokens ts)"
proof -
  from p have nf: "\<not> ts_finished ts" by (auto simp: ts_finish_def split: if_splits)
  let ?L = "decode tk (ts_tokens ts)"
  from p nf have t: "t = drop (ts_cursor ts) ?L"
    and ts': "ts' = ts\<lparr>ts_cursor := ts_cursor ts + length t, ts_finished := True\<rparr>"
    by (auto simp: ts_finish_def Let_def)
  from inv nf have c: "ts_cursor ts \<le> length (stable tk (ts_tokens ts))" by (simp add: ts_inv_def)
  have pre: "prefix (stable tk (ts_tokens ts)) ?L" using sd by (rule stable_decodingD)
  have tk: "take (ts_cursor ts) ?L = take (ts_cursor ts) (stable tk (ts_tokens ts))"
    using pre c by (rule take_prefix_eq)
  show "ts_finished ts'" by (simp add: ts')
  show "ts_tokens ts' = ts_tokens ts" by (simp add: ts')
  show "ts_inv tk ts'" by (simp add: ts_inv_def ts')
  show d: "emitted tk ts' = ?L" by (simp add: emitted_def ts')
  have "?L = take (ts_cursor ts) ?L @ drop (ts_cursor ts) ?L" by simp
  also have "\<dots> = emitted tk ts @ t" using nf by (simp add: tk t emitted_def)
  finally show "emitted tk ts' = emitted tk ts @ t" using d by simp
qed

lemma emitted_prefix:
  assumes "stable_decoding tk"
  shows "prefix (emitted tk ts) (decode tk (ts_tokens ts))"
proof (cases "ts_finished ts")
  case True
  then show ?thesis by (simp add: emitted_def)
next
  case False
  have "prefix (take (ts_cursor ts) (stable tk (ts_tokens ts))) (stable tk (ts_tokens ts))"
    by (rule take_is_prefix)
  also have "prefix (stable tk (ts_tokens ts)) (decode tk (ts_tokens ts))"
    using assms by (rule stable_decodingD)
  finally show ?thesis using False by (simp add: emitted_def)
qed

lemma matches_at_iff: "matches_at S t k \<longleftrightarrow> (\<exists>s\<in>set S. prefix s (drop k t))"
  by (simp add: matches_at_def list_ex_iff)

lemma first_stop_None: "first_stop S t = None \<longleftrightarrow> (\<forall>k\<le>length t. \<not> matches_at S t k)"
  by (simp add: first_stop_def find_None_iff less_Suc_eq_le del: upt_Suc)

lemma first_stop_Some:
  "first_stop S t = Some k \<longleftrightarrow>
     k \<le> length t \<and> matches_at S t k \<and> (\<forall>j<k. \<not> matches_at S t j)"
proof
  assume "first_stop S t = Some k"
  then obtain i where i: "i < length [0..<Suc (length t)]" "matches_at S t ([0..<Suc (length t)] ! i)"
    "k = [0..<Suc (length t)] ! i" "\<forall>j<i. \<not> matches_at S t ([0..<Suc (length t)] ! j)"
    unfolding first_stop_def find_Some_iff by blast
  from i(1) have il: "i \<le> length t" by simp
  then have ki: "k = i" using i(3) by (simp add: nth_upt del: upt_Suc)
  have "\<not> matches_at S t j" if "j < k" for j
  proof -
    from that ki il have "j < i" "j < Suc (length t)" by simp_all
    with i(4) show ?thesis by (metis add_0 nth_upt)
  qed
  moreover have "matches_at S t k" using i(2,3) by simp
  ultimately show "k \<le> length t \<and> matches_at S t k \<and> (\<forall>j<k. \<not> matches_at S t j)"
    using il ki by simp
next
  assume a: "k \<le> length t \<and> matches_at S t k \<and> (\<forall>j<k. \<not> matches_at S t j)"
  show "first_stop S t = Some k"
    unfolding first_stop_def find_Some_iff
  proof (intro exI[of _ k] conjI allI impI)
    show "k < length [0..<Suc (length t)]" using a by simp
    show "matches_at S t ([0..<Suc (length t)] ! k)"
      using a by (metis add_0 le_imp_less_Suc nth_upt)
    show "k = [0..<Suc (length t)] ! k" using a by (metis add_0 le_imp_less_Suc nth_upt)
    fix j assume "j < k"
    then show "\<not> matches_at S t ([0..<Suc (length t)] ! j)"
      using a by (metis add_0 le_imp_less_Suc less_le_trans nth_upt order_less_imp_le)
  qed
qed

lemma find_rev_upt:
  "(case find P (rev [0..<Suc m]) of
      None \<Rightarrow> \<forall>n\<le>m. \<not> P n
    | Some w \<Rightarrow> w \<le> m \<and> P w \<and> (\<forall>n. w < n \<and> n \<le> m \<longrightarrow> \<not> P n))"
proof (induction m)
  case 0
  show ?case by (cases "P 0") auto
next
  case (Suc m)
  show ?case
  proof (cases "P (Suc m)")
    case True
    then show ?thesis by auto
  next
    case False
    with Suc show ?thesis
      by (auto split: option.splits simp: le_Suc_eq)
  qed
qed

lemma withheld_len_le: "withheld_len S buf \<le> length buf"
  using find_rev_upt[where P="partial_match S buf" and m="length buf"]
  by (auto simp: withheld_len_def split: option.splits)

lemma withheld_len_max:
  "n \<le> length buf \<Longrightarrow> partial_match S buf n \<Longrightarrow> n \<le> withheld_len S buf"
  using find_rev_upt[where P="partial_match S buf" and m="length buf"]
  by (auto simp: withheld_len_def split: option.splits) (meson not_le_imp_less)

lemma prefix_append_cases:
  assumes "prefix s (a @ ext)"
  shows "prefix s a \<or> strict_prefix a s"
proof -
  from assms obtain z where "a @ ext = s @ z" by (auto simp: prefix_def)
  then obtain us where "a = s @ us \<or> a @ us = s"
    by (auto simp: append_eq_append_conv2)
  then have "prefix s a \<or> prefix a s" by (auto simp: prefix_def)
  then show ?thesis by (auto simp: strict_prefix_def)
qed

lemma released_no_start:
  assumes none: "first_stop S buf = None" and q: "q < length buf - withheld_len S buf"
    and s: "s \<in> set S"
  shows "\<not> prefix s (drop q (buf @ ext))"
proof
  assume "prefix s (drop q (buf @ ext))"
  then have "prefix s (drop q buf @ ext)" using q by simp
  then consider "prefix s (drop q buf)" | "strict_prefix (drop q buf) s"
    using prefix_append_cases by blast
  then show False
  proof cases
    case 1
    with s have "matches_at S buf q" by (auto simp: matches_at_iff)
    moreover have "q \<le> length buf" using q by simp
    ultimately show False using none by (simp add: first_stop_None)
  next
    case 2
    have "partial_match S buf (length buf - q)"
      using 2 s q by (auto simp: partial_match_def list_ex_iff)
    then have "length buf - q \<le> withheld_len S buf"
      by (intro withheld_len_max) simp_all
    with q show False by simp
  qed
qed

lemma no_start_before_extend:
  assumes old: "no_start_before S P (length E)" and eq: "E @ buf = P @ t"
    and none: "first_stop S buf = None" and r: "r = length buf - withheld_len S buf"
  shows "no_start_before S (P @ t) (length E + r)"
  unfolding no_start_before_def
proof (intro allI impI ballI)
  fix p s ext
  assume p: "p < length E + r" and s: "s \<in> set S"
  show "\<not> prefix s (drop p ((P @ t) @ ext))"
  proof (cases "p < length E")
    case True
    with old s have "\<not> prefix s (drop p (P @ (t @ ext)))"
      unfolding no_start_before_def by blast
    then show ?thesis by simp
  next
    case False
    then have "drop p ((P @ t) @ ext) = drop (p - length E) (buf @ ext)"
      by (simp flip: eq)
    moreover have "p - length E < length buf - withheld_len S buf"
      using p False r by simp
    ultimately show ?thesis using released_no_start[OF none _ s] by simp
  qed
qed

lemma first_stop_shift_None:
  assumes old: "no_start_before S P (length E)" and eq: "E @ buf = P @ t"
    and none: "first_stop S buf = None"
  shows "first_stop S (P @ t) = None"
  unfolding first_stop_None
proof (intro allI impI)
  fix k assume k: "k \<le> length (P @ t)"
  show "\<not> matches_at S (P @ t) k"
  proof (cases "k < length E")
    case True
    with old show ?thesis
      unfolding no_start_before_def matches_at_iff by blast
  next
    case False
    then have "drop k (P @ t) = drop (k - length E) buf" by (simp flip: eq)
    moreover have "k - length E \<le> length buf"
      using k False by (simp flip: eq)
    ultimately show ?thesis
      using none by (simp add: first_stop_None matches_at_iff)
  qed
qed

lemma first_stop_shift_Some:
  assumes old: "no_start_before S P (length E)" and eq: "E @ buf = P @ t"
    and some: "first_stop S buf = Some kb"
  shows "first_stop S (P @ t) = Some (length E + kb)" "take (length E + kb) (P @ t) = E @ take kb buf"
proof -
  from some have kb: "kb \<le> length buf" "matches_at S buf kb" "\<forall>j<kb. \<not> matches_at S buf j"
    by (simp_all add: first_stop_Some)
  show "first_stop S (P @ t) = Some (length E + kb)"
    unfolding first_stop_Some
  proof (intro conjI allI impI)
    show "length E + kb \<le> length (P @ t)" using kb(1) by (simp flip: eq)
    show "matches_at S (P @ t) (length E + kb)"
      using kb(2) by (simp add: matches_at_iff flip: eq)
    fix j assume j: "j < length E + kb"
    show "\<not> matches_at S (P @ t) j"
    proof (cases "j < length E")
      case True
      with old show ?thesis
        unfolding no_start_before_def matches_at_iff by blast
    next
      case False
      then have "drop j (P @ t) = drop (j - length E) buf" by (simp flip: eq)
      moreover have "j - length E < kb" using j False by simp
      ultimately show ?thesis using kb(3) by (simp add: matches_at_iff)
    qed
  qed
  show "take (length E + kb) (P @ t) = E @ take kb buf" by (simp flip: eq)
qed

lemma sh_put_cases:
  assumes nt: "\<not> stop_triggered h" and p: "sh_put h t = (d, h')"
  obtains
    (trigger) kb where "first_stop (sh_stop_strs h) (sh_held h @ t) = Some kb"
      "d = take kb (sh_held h @ t)" "stop_triggered h'" "sh_stop_strs h' = sh_stop_strs h"
  | (pass) "first_stop (sh_stop_strs h) (sh_held h @ t) = None" "\<not> stop_triggered h'"
      "d @ sh_held h' = sh_held h @ t"
      "length d = length (sh_held h @ t) - withheld_len (sh_stop_strs h) (sh_held h @ t)"
      "sh_stop_strs h' = sh_stop_strs h"
proof (cases "first_stop (sh_stop_strs h) (sh_held h @ t)")
  case None
  with nt p have "d = take (length (sh_held h @ t) - withheld_len (sh_stop_strs h) (sh_held h @ t)) (sh_held h @ t)"
    and "h' = h\<lparr>sh_held := drop (length (sh_held h @ t) - withheld_len (sh_stop_strs h) (sh_held h @ t)) (sh_held h @ t)\<rparr>"
    by (simp_all add: sh_put_def Let_def del: take_append drop_append length_append)
  with None nt show ?thesis
    using withheld_len_le[of "sh_stop_strs h" "sh_held h @ t"]
    by (intro pass) (simp_all del: take_append drop_append length_append)
next
  case (Some kb)
  with nt p show ?thesis
    by (intro trigger[of kb]) (auto simp: sh_put_def Let_def)
qed

lemma stop_inv_triggeredI:
  assumes "ts_inv tk ts'" "stop_triggered sh'" "prefix P' (emitted tk ts')"
    "first_stop (sh_stop_strs sh') P' = Some k" "E' = take k P'"
  shows "stop_inv tk \<lparr>rs_output = E', rs_streamer = ts', rs_handler = sh', rs_reason = fr'\<rparr>"
  using assms by (auto simp: stop_inv_def)

lemma sh_finish_untriggered:
  "sh_finish h = Inr (d, h') \<Longrightarrow> \<not> stop_triggered h \<Longrightarrow>
     d = sh_held h \<and> \<not> stop_triggered h' \<and> sh_stop_strs h' = sh_stop_strs h"
  by (auto simp: sh_finish_def split: if_splits)

lemma apply_event_stop_inv:
  assumes sd: "stable_decoding tk" and inv: "stop_inv tk v" and ae: "apply_event tk v d = Inr v'"
  shows "stop_inv tk v'"
    and "sh_stop_strs (rs_handler v') = sh_stop_strs (rs_handler v)"
    and "ts_tokens (rs_streamer v') = ts_tokens (rs_streamer v) @ delta_token_ids d"
proof -
  let ?ts = "rs_streamer v" and ?sh = "rs_handler v" and ?E = "rs_output v"
  let ?S = "sh_stop_strs ?sh" and ?P = "emitted tk ?ts"
  let ?toks = "delta_token_ids d" and ?fr = "finish_reason d"
  from ae obtain dt fr' ts' sh' where
    r: "resolve_delta tk ?ts ?sh ?toks ?fr = Inr (dt, fr', ts', sh')"
    and v': "v' = \<lparr>rs_output = ?E @ dt, rs_streamer = ts', rs_handler = sh', rs_reason = fr'\<rparr>"
    by (auto simp: apply_event_def split: sum.splits)
  from inv have tsi: "ts_inv tk ?ts" by (simp add: stop_inv_def)
  from r obtain t1 ts1 where p1: "ts_put tk ?ts ?toks = Inr (t1, ts1)"
    by (auto simp: resolve_delta_def split: sum.splits)
  note e1 = ts_put_emitted[OF sd tsi p1]
  obtain d1 sh1 where s1: "sh_put ?sh t1 = (d1, sh1)" by (cases "sh_put ?sh t1")
  have goal: "stop_inv tk v' \<and> sh_stop_strs (rs_handler v') = ?S \<and>
      ts_tokens (rs_streamer v') = ts_tokens ?ts @ ?toks"
  proof (cases "stop_triggered ?sh")
    case True
    with s1 have ds: "d1 = []" "sh1 = ?sh" by (simp_all add: sh_put_triggered)
    with r p1 s1 True have post: "dt = []" "ts' = ts1" "sh' = ?sh"
      by (auto simp: resolve_delta_def)
    from inv True obtain P' k where
      pk: "prefix P' ?P" "first_stop ?S P' = Some k" "?E = take k P'"
      by (auto simp: stop_inv_def)
    from pk(1) e1(1) have "prefix P' (emitted tk ts1)" by (simp add: prefix_prefix)
    then have "stop_inv tk v'"
      unfolding v' using e1(2) True pk(2,3) post
      by (intro stop_inv_triggeredI[of tk _ _ P' k]) simp_all
    with e1 post show ?thesis by (simp add: v')
  next
    case nt: False
    from inv nt e1(4) have u: "?E @ sh_held ?sh = ?P" "no_start_before ?S ?P (length ?E)"
      by (simp_all add: stop_inv_def)
    from nt s1 show ?thesis
    proof (cases rule: sh_put_cases)
      case (trigger kb)
      with r p1 s1 have post: "dt = d1" "ts' = ts1" "sh' = sh1"
        by (auto simp: resolve_delta_def)
      have eq: "?E @ (sh_held ?sh @ t1) = ?P @ t1" using u(1) by simp
      note sh = first_stop_shift_Some[OF u(2) eq trigger(1)]
      have "prefix (?P @ t1) (emitted tk ts1)" by (simp add: e1(1))
      moreover have "?E @ dt = take (length ?E + kb) (?P @ t1)"
        using sh(2) trigger(2) post by simp
      ultimately have "stop_inv tk v'"
        unfolding v' using sh(1) trigger(3,4) e1(2) post
        by (intro stop_inv_triggeredI[of tk _ _ "?P @ t1" "length ?E + kb"]) simp_all
      with trigger(4) e1 post show ?thesis by (simp add: v')
    next
      case pass
      have eq: "?E @ (sh_held ?sh @ t1) = ?P @ t1" using u(1) by simp
      have nsb1: "no_start_before ?S (?P @ t1) (length (?E @ d1))"
        using no_start_before_extend[OF u(2) eq pass(1) pass(4)] by simp
      have held1: "(?E @ d1) @ sh_held sh1 = ?P @ t1" using pass(3) u(1) by simp
      show ?thesis
      proof (cases "?fr = None")
        case True
        with r p1 s1 pass(2) have post: "dt = d1" "ts' = ts1" "sh' = sh1"
          by (auto simp: resolve_delta_def)
        from nsb1 held1 pass(2,5) e1 post show ?thesis
          by (auto simp: stop_inv_def v')
      next
        case False
        with r p1 s1 pass(2) obtain t2 ts2 where f: "ts_finish tk ts1 = Inr (t2, ts2)"
          by (auto simp: resolve_delta_def split: sum.splits)
        note e2 = ts_finish_emitted[OF sd e1(2) f]
        have P2: "emitted tk ts2 = (?P @ t1) @ t2" using e2(1) e1(1) by simp
        obtain d2 sh2 where s2: "sh_put sh1 t2 = (d2, sh2)" by (cases "sh_put sh1 t2")
        have eq2: "(?E @ d1) @ (sh_held sh1 @ t2) = (?P @ t1) @ t2" using held1 by simp
        from pass(2) s2 show ?thesis
        proof (cases rule: sh_put_cases)
          case (trigger kb)
          with r p1 s1 pass(2) False f s2 have post: "dt = d1 @ d2" "ts' = ts2" "sh' = sh2"
            by (auto simp: resolve_delta_def)
          note sh = first_stop_shift_Some[OF nsb1[unfolded pass(5)[symmetric]] eq2 trigger(1)]
          have "?E @ dt = take (length (?E @ d1) + kb) ((?P @ t1) @ t2)"
            using sh(2) trigger(2) post by simp
          moreover have "prefix ((?P @ t1) @ t2) (emitted tk ts2)" by (simp add: P2)
          ultimately have "stop_inv tk v'"
            unfolding v' using sh(1) trigger(3,4) pass(5) e2(2) post
            by (intro stop_inv_triggeredI[of tk _ _ "(?P @ t1) @ t2" "length (?E @ d1) + kb"]) simp_all
          with trigger(4) pass(5) e1 e2 post show ?thesis by (simp add: v')
        next
          case pass2: pass
          with r p1 s1 pass(2) False f s2 obtain d3 sh3 where
            sf: "sh_finish sh2 = Inr (d3, sh3)" and post: "dt = d1 @ d2 @ d3" "ts' = ts2" "sh' = sh3"
            by (auto simp: resolve_delta_def split: sum.splits)
          from sh_finish_untriggered[OF sf pass2(2)] have
            d3: "d3 = sh_held sh2" "\<not> stop_triggered sh3" "sh_stop_strs sh3 = sh_stop_strs sh2"
            by simp_all
          have "?E @ dt = (?P @ t1) @ t2"
            using post d3(1) pass2(3) held1 by (metis append.assoc)
          moreover have "first_stop ?S ((?P @ t1) @ t2) = None"
            using first_stop_shift_None[OF nsb1[unfolded pass(5)[symmetric]] eq2 pass2(1)] pass(5) by simp
          ultimately show ?thesis
            using d3 pass(5) pass2(5) e1 e2 post P2 by (auto simp: stop_inv_def v')
        qed
      qed
    qed
  qed
  then show "stop_inv tk v'"
    and "sh_stop_strs (rs_handler v') = sh_stop_strs (rs_handler v)"
    and "ts_tokens (rs_streamer v') = ts_tokens (rs_streamer v) @ delta_token_ids d"
    by simp_all
qed

lemma ends_first_iff:
  "ends_first S T k \<longleftrightarrow>
     (\<exists>s\<in>set S. prefix s (drop k T) \<and>
        (\<forall>s'\<in>set S. \<forall>k'\<le>length T. prefix s' (drop k' T) \<longrightarrow> k + length s \<le> k' + length s'))"
  by (auto simp: ends_first_def list_ex_iff list_all_iff less_Suc_eq_le simp del: upt_Suc)

text \<open>
  The first occurrence of a stop string ends first when all stop strings have the same
  length, and so when there is only one.
\<close>

lemma ends_first_equal_length:
  assumes fs: "first_stop S T = Some k"
    and eq: "\<forall>s\<in>set S. \<forall>s'\<in>set S. length s = length s'"
  shows "ends_first S T k"
proof -
  from fs have m: "matches_at S T k" and least: "\<forall>j<k. \<not> matches_at S T j"
    by (simp_all add: first_stop_Some)
  from m obtain s where s: "s \<in> set S" "prefix s (drop k T)" by (auto simp: matches_at_iff)
  have "k + length s \<le> k' + length s'" if "s' \<in> set S" "prefix s' (drop k' T)" for s' k'
  proof -
    from that have "matches_at S T k'" unfolding matches_at_iff by blast
    with least have "\<not> k' < k" by blast
    then have "k \<le> k'" by simp
    moreover from eq s(1) that(1) have "length s = length s'" by blast
    ultimately show ?thesis by simp
  qed
  then have "\<forall>s'\<in>set S. \<forall>k'\<le>length T. prefix s' (drop k' T) \<longrightarrow> k + length s \<le> k' + length s'"
    by blast
  with s show ?thesis unfolding ends_first_iff by blast
qed

lemma ends_first_single:
  assumes "first_stop [s] T = Some k"
  shows "ends_first [s] T k"
  using assms by (rule ends_first_equal_length) simp

lemma prefix_drop_mono:
  assumes "prefix P T" "prefix s (drop k P)"
  shows "prefix s (drop k T)"
proof -
  from assms(1) obtain r where T: "T = P @ r" by (auto simp: prefix_def)
  from assms(2) have "k \<le> length P \<or> s = []" by (cases "k \<le> length P") auto
  then show ?thesis
  proof
    assume "k \<le> length P"
    then have "drop k T = drop k P @ r" by (simp add: T)
    with assms(2) show ?thesis by simp
  qed simp
qed

lemma first_stop_in_prefix:
  assumes pre: "prefix P T" and fp: "first_stop S P = Some k'"
    and ft: "first_stop S T = Some k" and ef: "ends_first S T k"
  shows "k' = k"
proof -
  from pre obtain r where T: "T = P @ r" by (auto simp: prefix_def)
  from fp have k': "k' \<le> length P" "matches_at S P k'" "\<forall>j<k'. \<not> matches_at S P j"
    by (simp_all add: first_stop_Some)
  from ft have k: "k \<le> length T" "matches_at S T k" "\<forall>j<k. \<not> matches_at S T j"
    by (simp_all add: first_stop_Some)
  from k'(2) obtain s' where s': "s' \<in> set S" "prefix s' (drop k' P)"
    by (auto simp: matches_at_iff)
  have occ': "prefix s' (drop k' T)" using pre s'(2) by (rule prefix_drop_mono)
  with s'(1) have "matches_at S T k'" by (auto simp: matches_at_iff)
  with k(3) have le: "k \<le> k'" by (meson not_le_imp_less)
  from ef obtain s where s: "s \<in> set S" "prefix s (drop k T)"
    and first: "\<forall>s'\<in>set S. \<forall>k'\<le>length T. prefix s' (drop k' T) \<longrightarrow> k + length s \<le> k' + length s'"
    by (auto simp: ends_first_iff)
  have "k' \<le> length T" using k'(1) by (simp add: T)
  with first s'(1) occ' have "k + length s \<le> k' + length s'" by blast
  moreover have "length s' \<le> length P - k'" using s'(2) by (metis length_drop prefix_length_le)
  ultimately have fit: "k + length s \<le> length P" using k'(1) by simp
  have "drop k T = drop k P @ r" using fit by (simp add: T)
  with s(2) have "prefix s (drop k P @ r)" by simp
  then consider "prefix s (drop k P)" | "strict_prefix (drop k P) s"
    using prefix_append_cases by blast
  then have "prefix s (drop k P)"
  proof cases
    case 2
    then have "length (drop k P) < length s" by (metis prefix_length_less)
    with fit show ?thesis by simp
  qed
  with s(1) have "matches_at S P k" by (auto simp: matches_at_iff)
  with k'(3) have "k' \<le> k" by (meson not_le_imp_less)
  with le show ?thesis by simp
qed

lemma fresh_stop_inv: "stop_inv tk (fresh_request cfg)"
  by (simp add: stop_inv_def fresh_request_def new_text_streamer_def new_stop_handler_def
      ts_inv_def emitted_def no_start_before_def)

lemma replay_stop_inv:
  assumes "stable_decoding tk" "replay tk v evs = Inr v'" "stop_inv tk v"
  shows "stop_inv tk v' \<and> sh_stop_strs (rs_handler v') = sh_stop_strs (rs_handler v) \<and>
     ts_tokens (rs_streamer v') = ts_tokens (rs_streamer v) @ concat (map delta_token_ids evs)"
  using assms(2,3)
proof (induction evs arbitrary: v)
  case Nil
  then show ?case by simp
next
  case (Cons d evs)
  from Cons.prems(1) obtain v1 where a: "apply_event tk v d = Inr v1"
    and rest: "replay tk v1 evs = Inr v'" by (auto split: sum.splits)
  note step = apply_event_stop_inv[OF assms(1) Cons.prems(2) a]
  from Cons.IH[OF rest step(1)] step(2,3) show ?case by simp
qed

lemma replay_last_reason:
  assumes "replay tk v evs = Inr v'" "evs \<noteq> []" "\<not> stop_triggered (rs_handler v')"
  shows "rs_reason v' = finish_reason (last evs)"
  using assms
proof (induction evs arbitrary: v)
  case Nil
  then show ?case by simp
next
  case (Cons d evs)
  from Cons.prems(1) obtain v1 where a: "apply_event tk v d = Inr v1"
    and rest: "replay tk v1 evs = Inr v'" by (auto split: sum.splits)
  show ?case
  proof (cases "evs = []")
    case True
    with rest have "v' = v1" by simp
    with a Cons.prems(3) True show ?thesis
      by (auto simp: apply_event_def split: sum.splits dest!: resolve_post)
  next
    case False
    with Cons.IH[OF rest False Cons.prems(3)] show ?thesis by simp
  qed
qed

text \<open>The state of one request after a run of the callback from a fresh batch.\<close>

lemma reachable_request:
  assumes sd: "stable_decoding tk"
    and run: "request_stream_callback tk (init_batch cfgs n) evs = Inr st" and i: "i < n"
  shows "stop_inv tk (request_view st i)" "done_inv (request_view st i)"
    "sh_stop_strs (stop_handlers st ! i) = stop_strs (cfgs ! i)"
    "ts_tokens (text_streamers st ! i) = request_tokens n i evs"
    "events_for n i evs \<noteq> [] \<Longrightarrow> \<not> stop_triggered (stop_handlers st ! i) \<Longrightarrow>
       finish_reasons st ! i = finish_reason (last (events_for n i evs))"
proof -
  have rp: "replay tk (fresh_request (cfgs ! i)) (events_for n i evs) = Inr (request_view st i)"
    using run_view[OF init_batch_size run, of i] i by (simp add: view_init)
  note inv = replay_stop_inv[OF sd rp fresh_stop_inv]
  show "stop_inv tk (request_view st i)" using inv by simp
  show "done_inv (request_view st i)" using run i by (rule reachable_done_inv)
  show "sh_stop_strs (stop_handlers st ! i) = stop_strs (cfgs ! i)"
    using inv by (simp add: request_view_def fresh_request_def new_stop_handler_def)
  show "ts_tokens (text_streamers st ! i) = request_tokens n i evs"
    using inv by (simp add: request_view_def fresh_request_def new_text_streamer_def request_tokens_def)
  show "finish_reasons st ! i = finish_reason (last (events_for n i evs))"
    if "events_for n i evs \<noteq> []" "\<not> stop_triggered (stop_handlers st ! i)"
    using replay_last_reason[OF rp that(1)] that(2) by (simp add: request_view_def)
qed


lemma callback_stop_truncation:
  assumes sd: "stable_decoding tk"
    and run: "request_stream_callback tk (init_batch cfgs n) evs = Inr st" and i: "i < n"
    and first: "first_stop (stop_strs (cfgs ! i)) (decode tk (request_tokens n i evs)) = Some k"
    and ef: "ends_first (stop_strs (cfgs ! i)) (decode tk (request_tokens n i evs)) k"
    and dn: "finish_reasons st ! i \<noteq> None"
  shows "outputs st ! i = take k (decode tk (request_tokens n i evs))"
    "finish_reasons st ! i = Some ''stop''"
proof -
  let ?T = "decode tk (request_tokens n i evs)" and ?S = "stop_strs (cfgs ! i)"
  let ?P = "emitted tk (text_streamers st ! i)"
  note r = reachable_request[OF sd run i]
  have PT: "prefix ?P ?T" using emitted_prefix[OF sd, of "text_streamers st ! i"] r(4) by simp
  have tr: "stop_triggered (stop_handlers st ! i)"
  proof (rule ccontr)
    assume nt: "\<not> stop_triggered (stop_handlers st ! i)"
    with dn r(2) have f: "ts_finished (text_streamers st ! i)"
      by (auto simp: done_inv_def request_view_def)
    with nt r(1) r(3) have "first_stop ?S ?P = None"
      by (simp add: stop_inv_def request_view_def)
    moreover from f r(4) have "?P = ?T" by (simp add: emitted_def)
    ultimately show False using first by simp
  qed
  with r(2) show "finish_reasons st ! i = Some ''stop''"
    by (simp add: done_inv_def request_view_def)
  from tr r(1) r(3) obtain P' k' where
    pk: "prefix P' ?P" "first_stop ?S P' = Some k'" "outputs st ! i = take k' P'"
    by (auto simp: stop_inv_def request_view_def)
  from pk(1) PT have P'T: "prefix P' ?T" by (rule prefix_order.trans)
  from first_stop_in_prefix[OF P'T pk(2) first ef] have kk: "k' = k" .
  from pk(2) have "k' \<le> length P'" by (simp add: first_stop_Some)
  with P'T kk have "take k ?T = take k P'" by (intro take_prefix_eq) simp_all
  with pk(3) kk show "outputs st ! i = take k ?T" by simp
qed

lemma demo_stable_decoding: "stable_decoding demo_tokenizer"
proof -
  have bl: "prefix (butlast h) h" for h :: "int list"
    by (cases h rule: rev_cases) simp_all
  have pa: "prefix (butlast h) (butlast (h @ ext))" for h ext :: "int list"
  proof (cases "ext = []")
    case True
    then show ?thesis by simp
  next
    case False
    then have "butlast (h @ ext) = h @ butlast ext" by (simp add: butlast_append)
    with bl[of h] show ?thesis by (simp add: prefix_prefix)
  qed
  have pb: "prefix (butlast h) (h @ ext)" for h ext :: "int list"
    using bl[of h] by (simp add: prefix_prefix)
  have cm: "prefix (concat (map f xs)) (concat (map f ys))" if "prefix xs ys"
    for xs ys :: "int list" and f :: "int \<Rightarrow> string"
    using that by (auto simp: prefix_def)
  show ?thesis
    unfolding stable_decoding_def demo_tokenizer_def using cm[OF pa] cm[OF pb] by simp
qed

lemma demo_run_stop:
  "generate demo_tokenizer demo_stop_engine (VList [VStr ''Hello'', VStr ''World''])
     (SingleConfig \<lparr>stop_strs = [''!'']\<rparr>)
   = (Returned [''Hello'', ''World.''], demo_stop_final)"
  by (simp add: eval_defs demo_stop_engine_def demo_stop_final_def)

lemma demo_stop_callback:
  "request_stream_callback demo_tokenizer (init_batch [\<lparr>stop_strs = [''!'']\<rparr>, \<lparr>stop_strs = [''!'']\<rparr>] 2)
     [ev ''0'' [0, 1, 1, 1] (Some ''length''), ev ''1'' [2, 3] (Some ''length'')] = Inr demo_stop_batch"
  by (simp add: eval_defs demo_stop_batch_def upt_rec)


lemma demo_stop_delivered:
  "delivered_events demo_stop_engine demo_stop_final =
     [ev ''0'' [0, 1, 1, 1] (Some ''length''), ev ''1'' [2, 3] (Some ''length'')]"
  by (simp add: delivered_events_def demo_stop_engine_def demo_stop_final_def
      demo_engine_def step_events_def)


section \<open>Requests without stop strings\<close>




section \<open>Truncation at a stop string\<close>

text \<open>
  C3 as stated fails when stop strings overlap. Take the stop strings \<open>Hello!W\<close>,
  \<open>ello!\<close> and \<open>ll\<close> and the full text \<open>Hello!World\<close>. The first occurrence of a
  stop string starts at offset 0, so the claim asks for the empty output (and for
  \<open>He\<close> if the first occurrence were taken to be \<open>ll\<close>, the one that ends first).
  The streamer withholds the last token, so the handler sees \<open>Hello!\<close>; there two
  stop strings are complete, the earlier one starts at offset 1, and the output is
  \<open>H\<close>.
\<close>

theorem stop_truncation_overlapping_stop_strings:
  "stable_decoding demo_tokenizer \<and>
   generate demo_tokenizer (demo_engine [StepDelivers [[ev ''0'' [0, 1, 2] (Some ''length'')]]])
       (VStr ''Hi'') (SingleConfig \<lparr>stop_strs = [''Hello!W'', ''ello!'', ''ll'']\<rparr>)
     = (Returned [''H''],
        \<lparr>callback_slot = UserCallback 0,
         ffi_log =
           [GetRequestStreamCallback, SetRequestStreamCallback BatchCallback,
            AddRequest \<lparr>req_request_id = ''0'', req_inputs = TextData ''Hi'',
                        req_generation_config = \<lparr>stop_strs = [''Hello!W'', ''ello!'', ''ll'']\<rparr>\<rparr>,
            Step, SetRequestStreamCallback (UserCallback 0)],
         add_request_raises = [], step_script = []\<rparr>) \<and>
   decode demo_tokenizer [0, 1, 2] = ''Hello!World'' \<and>
   first_stop [''Hello!W'', ''ello!'', ''ll''] ''Hello!World'' = Some 0 \<and>
   take 0 ''Hello!World'' \<noteq> ''H'' \<and> take 2 ''Hello!World'' \<noteq> ''H''"
  using demo_stable_decoding by (simp add: eval_defs)

text \<open>
  C3, amended. Let the decoding rule meet the guarantee of section 4.1 and let
  \<^verbatim>\<open>generate\<close> return. Let \<open>T\<close> be the decoded text of all token ids delivered for
  request \<open>i\<close>, let the first occurrence of a stop string of the request start at
  offset \<open>k\<close> of \<open>T\<close>, and let an occurrence at \<open>k\<close> end no later than every other
  occurrence of a stop string in \<open>T\<close>. Then the result list is the output list of the
  callback's last state, and if request \<open>i\<close> is Done, result \<open>i\<close> is \<open>T[0:k]\<close> and
  its finish reason is \<open>stop\<close>, whatever reason the engine gave.
\<close>

theorem stop_truncation:
  assumes "stable_decoding tk"
    and "generate tk eng prompts gc = (Returned outs, eng')"
    and "normalize_prompts prompts = Inr (Some ps)"
    and "i < length ps"
    and "first_stop (stop_strs (broadcast_config gc (length ps) ! i))
           (decode tk (request_tokens (length ps) i (delivered_events eng eng'))) = Some k"
    and "ends_first (stop_strs (broadcast_config gc (length ps) ! i))
           (decode tk (request_tokens (length ps) i (delivered_events eng eng'))) k"
  shows "\<exists>st. request_stream_callback tk (init_batch (broadcast_config gc (length ps)) (length ps))
              (delivered_events eng eng') = Inr st \<and>
           outputs st = outs \<and>
           (finish_reasons st ! i \<noteq> None \<longrightarrow>
              outs ! i = take k (decode tk (request_tokens (length ps) i (delivered_events eng eng'))) \<and>
              finish_reasons st ! i = Some ''stop'')"
  using assms(2,3)
proof (cases rule: generate_returns_run)
  case (1 st)
  from callback_stop_truncation[OF assms(1) 1(1) assms(4,5,6)] 1(1,2)
  show ?thesis by auto
qed

theorem stop_truncation_witness:
  "stable_decoding demo_tokenizer \<and>
   generate demo_tokenizer demo_stop_engine (VList [VStr ''Hello'', VStr ''World''])
     (SingleConfig \<lparr>stop_strs = [''!'']\<rparr>)
   = (Returned [''Hello'', ''World.''], demo_stop_final) \<and>
   normalize_prompts (VList [VStr ''Hello'', VStr ''World'']) = Inr (Some [VStr ''Hello'', VStr ''World'']) \<and>
   decode demo_tokenizer (request_tokens 2 0 (delivered_events demo_stop_engine demo_stop_final))
     = ''Hello!!!'' \<and>
   first_stop [''!''] ''Hello!!!'' = Some 5 \<and>
   ends_first [''!''] ''Hello!!!'' 5 \<and>
   request_stream_callback demo_tokenizer
     (init_batch [\<lparr>stop_strs = [''!'']\<rparr>, \<lparr>stop_strs = [''!'']\<rparr>] 2)
     (delivered_events demo_stop_engine demo_stop_final) = Inr demo_stop_batch \<and>
   finish_reasons demo_stop_batch ! 0 = Some ''stop'' \<and>
   [''Hello'', ''World.''] ! 0 = take 5 ''Hello!!!''"
proof -
  let ?ps = "[VStr ''Hello'', VStr ''World'']"
  let ?D = "delivered_events demo_stop_engine demo_stop_final"
  have np: "normalize_prompts (VList ?ps) = Inr (Some ?ps)"
    by (simp add: normalize_prompts_def)
  have i: "0 < length ?ps" by simp
  have cfg: "stop_strs (broadcast_config (SingleConfig \<lparr>stop_strs = [''!'']\<rparr>) (length ?ps) ! 0) = [''!'']"
    by (simp add: broadcast_config_def)
  have T: "decode demo_tokenizer (request_tokens (length ?ps) 0 ?D) = ''Hello!!!''"
    by (simp add: demo_stop_delivered request_tokens_def events_for_def slot_of_def eval_defs)
  have fs: "first_stop [''!''] ''Hello!!!'' = Some 5"
    by (simp add: first_stop_def matches_at_def)
  have ef: "ends_first [''!''] ''Hello!!!'' 5"
    by (simp add: ends_first_def upt_rec)
  have run: "request_stream_callback demo_tokenizer
     (init_batch [\<lparr>stop_strs = [''!'']\<rparr>, \<lparr>stop_strs = [''!'']\<rparr>] 2) ?D = Inr demo_stop_batch"
    unfolding demo_stop_delivered by (rule demo_stop_callback)
  have ib: "init_batch (broadcast_config (SingleConfig \<lparr>stop_strs = [''!'']\<rparr>) (length ?ps)) (length ?ps)
      = init_batch [\<lparr>stop_strs = [''!'']\<rparr>, \<lparr>stop_strs = [''!'']\<rparr>] 2"
    by (simp add: broadcast_config_def init_batch_def upt_rec)
  have dn: "finish_reasons demo_stop_batch ! 0 \<noteq> None" by (simp add: demo_stop_batch_def)
  from stop_truncation [OF demo_stable_decoding demo_run_stop np i, of 5]
  obtain st where st: "request_stream_callback demo_tokenizer
        (init_batch (broadcast_config (SingleConfig \<lparr>stop_strs = [''!'']\<rparr>) (length ?ps)) (length ?ps)) ?D
        = Inr st"
    and res: "finish_reasons st ! 0 \<noteq> None \<longrightarrow>
       [''Hello'', ''World.''] ! 0 = take 5 (decode demo_tokenizer (request_tokens (length ?ps) 0 ?D)) \<and>
       finish_reasons st ! 0 = Some ''stop''"
    unfolding cfg T using fs ef by blast
  from st run ib have "st = demo_stop_batch" by simp
  with res dn T have r: "[''Hello'', ''World.''] ! 0 = take 5 ''Hello!!!''"
    "finish_reasons demo_stop_batch ! 0 = Some ''stop''" by simp_all
  have T2: "decode demo_tokenizer (request_tokens 2 0 ?D) = ''Hello!!!''"
    using T by (simp add: numeral_2_eq_2)
  from demo_stable_decoding demo_run_stop np T2 fs ef run r show ?thesis by blast
qed

end
